theory Spec2Isabelle
  imports Main
begin

section \<open>The useEventSource hook as a state machine\<close>

text \<open>
  The hook \<^verbatim>\<open>useEventSource\<close> keeps four pieces of React state
  (\<^verbatim>\<open>readyState\<close>, \<^verbatim>\<open>lastEventId\<close>, \<^verbatim>\<open>error\<close>, \<^verbatim>\<open>events\<close>), six refs
  (\<^verbatim>\<open>controllerRef\<close>, \<^verbatim>\<open>retryCountRef\<close> and the four observer refs) and one memoised
  callback \<^verbatim>\<open>start\<close>. Everything it does happens inside callbacks that the
  environment invokes: the transport (\<^verbatim>\<open>fetchEventSource\<close>) calls
  \<^verbatim>\<open>onopen\<close>, \<^verbatim>\<open>onmessage\<close>, \<^verbatim>\<open>onerror\<close>, \<^verbatim>\<open>onclose\<close>; the timer queue runs the
  function given to \<^verbatim>\<open>setTimeout\<close>; the document fires \<^verbatim>\<open>visibilitychange\<close>; the
  caller invokes \<^verbatim>\<open>close()\<close> and \<^verbatim>\<open>reconnect()\<close>, renders again with other options or
  unmounts the component.
  The model is a record of that state and one function per callback, each returning the
  updated record and, for the transport's callbacks, the value it throws, if any.
\<close>

subsection \<open>Numbers\<close>

text \<open>
  The hook computes \<^verbatim>\<open>Math.min(retryIntervalMs * 2 ** retryCountRef.current,
  maxRetryIntervalMs ?? Infinity)\<close> on doubles. The model has the integers, the two
  infinities and NaN; an integer stands for a double, so it has at most 53 significant
  bits and is smaller than \<open>2 ^ 1024\<close> in magnitude (every integer below \<open>2 ^ 53\<close> in
  magnitude is one).
\<close>

datatype number = Num int | Infinity | NegInfinity | NaN

text \<open>
  \<^verbatim>\<open>x * 2 ** n\<close> for a count \<open>n\<close>. \<^verbatim>\<open>2 ** n\<close> is the exact power up to \<open>n = 1023\<close> and
  \<^verbatim>\<open>Infinity\<close> from \<open>n = 1024\<close> on. The product of a double and a power of two is exact
  unless it overflows, which it does from \<open>2 ^ 1024\<close> on; \<^verbatim>\<open>0 * Infinity\<close> is NaN.
\<close>

fun times_pow2 :: "number \<Rightarrow> nat \<Rightarrow> number" where
  "times_pow2 NaN n = NaN"
| "times_pow2 Infinity n = Infinity"
| "times_pow2 NegInfinity n = NegInfinity"
| "times_pow2 (Num b) n =
     (if b = 0 then (if n < 1024 then Num 0 else NaN)
      else if \<bar>b\<bar> * 2 ^ n < 2 ^ 1024 then Num (b * 2 ^ n)
      else if 0 < b then Infinity else NegInfinity)"

text \<open>\<^verbatim>\<open>Math.min\<close> of two numbers: NaN when one of them is.\<close>

fun Math_min :: "number \<Rightarrow> number \<Rightarrow> number" where
  "Math_min NaN y = NaN"
| "Math_min x NaN = NaN"
| "Math_min NegInfinity y = NegInfinity"
| "Math_min x NegInfinity = NegInfinity"
| "Math_min Infinity y = y"
| "Math_min x Infinity = x"
| "Math_min (Num a) (Num b) = Num (min a b)"

text \<open>
  \<^verbatim>\<open>retryCountRef.current += 1\<close>: the count is a double too, and \<open>2 ^ 53 + 1\<close> rounds
  back to \<open>2 ^ 53\<close>.
\<close>

definition increment :: "nat \<Rightarrow> nat" where
  "increment n = (if int n < 2 ^ 53 then n + 1 else n)"

subsection \<open>Data\<close>

text \<open>\<^verbatim>\<open>readyState: 0 | 1 | 2\<close>, with the names the source's comments give them.\<close>

datatype ready_state = CONNECTING | OPEN | CLOSED

fun ready_code :: "ready_state \<Rightarrow> nat" where
  "ready_code CONNECTING = 0"
| "ready_code OPEN = 1"
| "ready_code CLOSED = 2"

text \<open>
  A decoded message. The handler reads \<^verbatim>\<open>message.id ?? ""\<close>, so the identifier may be
  null or undefined: that is \<open>None\<close> here. (The transport itself gives a message without
  an \<^verbatim>\<open>id\<close> field the empty identifier.)
\<close>

record EventSourceMessage =
  msg_id :: "string option"
  msg_event :: string
  msg_data :: string

text \<open>
  \<^verbatim>\<open>RequestInit\<close>: an object, compared by identity in a dependency list (\<open>init_ref\<close>
  is that identity). \<open>init_headers\<close> are the entries that the platform's
  \<^verbatim>\<open>new Headers(init.headers ?? {})\<close> enumerates; method, body and the other fields are
  passed through untouched and are left out.
\<close>

record RequestInit =
  init_ref :: nat
  init_headers :: "string \<rightharpoonup> string"
  init_credentials :: "string option"

text \<open>
  An observer is a function of the caller. What the hook sees of a call is whether it
  returns or throws: the function gives \<open>None\<close> when it returns and the thrown value
  when it throws. It is taken not to call \<^verbatim>\<open>close()\<close> or \<^verbatim>\<open>reconnect()\<close> itself while
  it runs.
\<close>

type_synonym ('a, 'e) observer = "('a \<Rightarrow> 'e option) option"

text \<open>
  The options of one render. An optional field is an \<open>option\<close>; \<open>fetch\<close> is the
  identity of a custom transport function.
\<close>

record ('e, 'r) UseEventSourceOptions =
  url :: string
  withCredentials :: "bool option"
  init :: "RequestInit option"
  fetch :: "nat option"
  retryIntervalMs :: "number option"
  maxRetryIntervalMs :: "number option"
  pauseOnHidden :: "bool option"
  onOpen :: "('r, 'e) observer"
  onMessage :: "(EventSourceMessage, 'e) observer"
  onError :: "('e, 'e) observer"
  onClose :: "(unit, 'e) observer"

text \<open>The defaults of the destructuring: \<^verbatim>\<open>withCredentials = false\<close>, \<^verbatim>\<open>pauseOnHidden = true\<close>.\<close>

definition withCredentials_of :: "('e, 'r) UseEventSourceOptions \<Rightarrow> bool" where
  "withCredentials_of opts = (case withCredentials opts of None \<Rightarrow> False | Some b \<Rightarrow> b)"

definition pauseOnHidden_of :: "('e, 'r) UseEventSourceOptions \<Rightarrow> bool" where
  "pauseOnHidden_of opts = (case pauseOnHidden opts of None \<Rightarrow> True | Some b \<Rightarrow> b)"

text \<open>
  What one instance of the memoised \<^verbatim>\<open>start\<close> closes over: the option values of the
  render that created it, and that render's \<^verbatim>\<open>lastEventId\<close>. (The refs are shared
  and mutable; they live in the hook's state.)
\<close>

record ('e, 'r) closure =
  c_opts :: "('e, 'r) UseEventSourceOptions"
  c_lastEventId :: string

text \<open>
  The dependency list of \<^verbatim>\<open>useCallback\<close>:
  \<^verbatim>\<open>[url, init, customFetch, withCredentials, retryIntervalMs, maxRetryIntervalMs]\<close>,
  compared entry by entry with \<^verbatim>\<open>Object.is\<close> (objects and functions by identity).
  \<^verbatim>\<open>lastEventId\<close> is not in the list.
\<close>

definition same_deps ::
  "('e, 'r) UseEventSourceOptions \<Rightarrow> ('e, 'r) UseEventSourceOptions \<Rightarrow> bool" where
  "same_deps a b =
     (url a = url b \<and>
      map_option init_ref (init a) = map_option init_ref (init b) \<and>
      fetch a = fetch b \<and>
      withCredentials_of a = withCredentials_of b \<and>
      retryIntervalMs a = retryIntervalMs b \<and>
      maxRetryIntervalMs a = maxRetryIntervalMs b)"

text \<open>What \<^verbatim>\<open>start\<close> hands to \<^verbatim>\<open>fetchEventSource\<close>, besides the signal and the callbacks.\<close>

record request =
  req_url :: string
  req_credentials :: "string option"
  req_headers :: "string \<rightharpoonup> string"

text \<open>
  One record per call of \<^verbatim>\<open>start\<close>: the \<^verbatim>\<open>AbortController\<close> it creates
  (\<open>aborted\<close> is \<^verbatim>\<open>controller.signal.aborted\<close>) and the transport attempt it opens with
  that controller's signal. The position in the list \<open>attempts\<close> is the identity of the
  controller. \<open>opened\<close> says that the transport has called \<^verbatim>\<open>onopen\<close> for the attempt,
  \<open>ended\<close> that it has finished the attempt on its own; \<open>closure\<close> is the scope the
  attempt's callbacks run in.
\<close>

record ('e, 'r) attempt =
  aborted :: bool
  opened :: bool
  ended :: bool
  request :: request
  closure :: "('e, 'r) closure"

text \<open>
  One entry per call of \<^verbatim>\<open>setTimeout\<close>, in call order; the position is the timer's id.
  The scheduled function is \<^verbatim>\<open>() => { if (!controller.signal.aborted) start(); }\<close>
  with the controller of the attempt whose error callback scheduled it.
\<close>

record timer =
  t_controller :: nat
  t_delay :: number
  fired :: bool

text \<open>The calls made to the caller's observers, whether they returned or threw.\<close>

datatype ('e, 'r) call = OnOpen 'r | OnMessage EventSourceMessage | OnError 'e | OnClose

record ('e, 'r) hook =
  readyState :: ready_state
  lastEventId :: string
  error :: "'e option"
  events :: "EventSourceMessage list"
  controllerRef :: "nat option"
  retryCountRef :: nat
  onOpenRef :: "('r, 'e) observer"
  onMessageRef :: "(EventSourceMessage, 'e) observer"
  onErrorRef :: "('e, 'e) observer"
  onCloseRef :: "(unit, 'e) observer"
  startMemo :: "('e, 'r) closure"
  visibilityListener :: bool
  attempts :: "('e, 'r) attempt list"
  timers :: "timer list"
  observed :: "('e, 'r) call list"

subsection \<open>start, close, reconnect\<close>

text \<open>\<^verbatim>\<open>controllerRef.current?.abort()\<close>\<close>

definition abort_current :: "('e, 'r) hook \<Rightarrow> ('e, 'r) hook" where
  "abort_current s =
     (case controllerRef s of
        None \<Rightarrow> s
      | Some k \<Rightarrow> s\<lparr>attempts := (attempts s)[k := (attempts s ! k)\<lparr>aborted := True\<rparr>]\<rparr>)"

text \<open>
  Lines 81 to 95: the request. \<^verbatim>\<open>!requestInit.credentials\<close> holds for an absent and for
  an empty string; \<^verbatim>\<open>if (lastEventId)\<close> holds for a non-empty string, and
  \<^verbatim>\<open>lastEventId\<close> is the variable of the closure.
\<close>

definition build_request :: "('e, 'r) closure \<Rightarrow> request" where
  "build_request cl =
     (let opts = c_opts cl;
          credentials0 = (case init opts of None \<Rightarrow> None | Some i \<Rightarrow> init_credentials i);
          credentials1 =
            (if withCredentials_of opts \<and> (credentials0 = None \<or> credentials0 = Some [])
             then Some ''include'' else credentials0);
          existing = (case init opts of None \<Rightarrow> Map.empty | Some i \<Rightarrow> init_headers i);
          headersRecord =
            (if c_lastEventId cl \<noteq> [] then existing(''Last-Event-ID'' \<mapsto> c_lastEventId cl)
             else existing)
      in \<lparr>req_url = url opts, req_credentials = credentials1, req_headers = headersRecord\<rparr>)"

definition start :: "('e, 'r) closure \<Rightarrow> ('e, 'r) hook \<Rightarrow> ('e, 'r) hook" where
  "start cl s =
     (let s1 = abort_current s;
          controller = length (attempts s1);
          s2 = s1\<lparr>controllerRef := Some controller\<rparr>;
          s3 = s2\<lparr>readyState := CONNECTING\<rparr>
      in s3\<lparr>attempts := attempts s3 @
            [\<lparr>aborted = False, opened = False, ended = False,
              request = build_request cl, closure = cl\<rparr>]\<rparr>)"

definition close :: "('e, 'r) hook \<Rightarrow> ('e, 'r) hook" where
  "close s = (abort_current s)\<lparr>readyState := CLOSED\<rparr>"

definition reconnect :: "('e, 'r) hook \<Rightarrow> ('e, 'r) hook" where
  "reconnect s = start (startMemo s) s"

subsection \<open>The transport's callbacks\<close>

text \<open>
  \<^verbatim>\<open>ref.current?.(x)\<close>: nothing happens without an observer; with one, the call returns
  or throws. No callback of the hook catches an exception, so a throwing observer ends
  the callback at the call, with the assignments made before it.
\<close>

definition call_observer :: "('a, 'e) observer \<Rightarrow> 'a \<Rightarrow> 'e option" where
  "call_observer f x = (case f of None \<Rightarrow> None | Some g \<Rightarrow> g x)"

definition onopen :: "'r \<Rightarrow> ('e, 'r) hook \<Rightarrow> ('e, 'r) hook \<times> 'e option" where
  "onopen response s =
     (let s1 = s\<lparr>readyState := OPEN\<rparr>;
          s2 = s1\<lparr>retryCountRef := 0\<rparr>;
          s3 = (case onOpenRef s2 of
                  None \<Rightarrow> s2
                | Some f \<Rightarrow> s2\<lparr>observed := observed s2 @ [OnOpen response]\<rparr>)
      in (s3, call_observer (onOpenRef s2) response))"

definition onmessage ::
  "EventSourceMessage \<Rightarrow> ('e, 'r) hook \<Rightarrow> ('e, 'r) hook \<times> 'e option" where
  "onmessage message s =
     (let s1 = s\<lparr>lastEventId := (case msg_id message of None \<Rightarrow> [] | Some i \<Rightarrow> i)\<rparr>;
          s2 = s1\<lparr>events := events s1 @ [message]\<rparr>;
          s3 = (case onMessageRef s2 of
                  None \<Rightarrow> s2
                | Some f \<Rightarrow> s2\<lparr>observed := observed s2 @ [OnMessage message]\<rparr>)
      in (s3, call_observer (onMessageRef s2) message))"

text \<open>
  The error callback of the attempt with controller \<open>controller\<close>, created by the
  \<^verbatim>\<open>start\<close> with closure \<open>cl\<close>. The observer is called after \<^verbatim>\<open>setError\<close> and before
  \<^verbatim>\<open>setReadyState(2)\<close>: when it throws, the state is not set to CLOSED and the retry
  block is not reached. Without a retry interval the callback ends in \<^verbatim>\<open>throw err\<close>.
\<close>

definition onerror ::
  "('e, 'r) closure \<Rightarrow> nat \<Rightarrow> 'e \<Rightarrow> ('e, 'r) hook \<Rightarrow> ('e, 'r) hook \<times> 'e option" where
  "onerror cl controller err s =
     (let s1 = s\<lparr>error := Some err\<rparr>;
          s2 = (case onErrorRef s1 of
                  None \<Rightarrow> s1
                | Some f \<Rightarrow> s1\<lparr>observed := observed s1 @ [OnError err]\<rparr>)
      in case call_observer (onErrorRef s1) err of
           Some thrown \<Rightarrow> (s2, Some thrown)
         | None \<Rightarrow>
             (let s3 = s2\<lparr>readyState := CLOSED\<rparr>
              in case retryIntervalMs (c_opts cl) of
                   Some base \<Rightarrow>
                     (let delay =
                            Math_min (times_pow2 base (retryCountRef s3))
                              (case maxRetryIntervalMs (c_opts cl) of
                                 None \<Rightarrow> Infinity | Some cap \<Rightarrow> cap);
                          s4 = s3\<lparr>retryCountRef := increment (retryCountRef s3)\<rparr>
                      in (s4\<lparr>timers := timers s4 @
                            [\<lparr>t_controller = controller, t_delay = delay, fired = False\<rparr>]\<rparr>,
                          None))
                 | None \<Rightarrow> (s3, Some err)))"

definition onclose :: "('e, 'r) hook \<Rightarrow> ('e, 'r) hook \<times> 'e option" where
  "onclose s =
     (let s1 = s\<lparr>readyState := CLOSED\<rparr>;
          s2 = (case onCloseRef s1 of
                  None \<Rightarrow> s1
                | Some f \<Rightarrow> s1\<lparr>observed := observed s1 @ [OnClose]\<rparr>)
      in (s2, call_observer (onCloseRef s1) ()))"

subsection \<open>The environment\<close>

text \<open>
  The transport (\<^verbatim>\<open>fetchEventSource\<close>) is a library, not part of the repository, and the
  hook's callbacks do not test which attempt calls them. What is assumed of the library is
  what it does:
  \<^item> it calls \<^verbatim>\<open>onopen\<close> and \<^verbatim>\<open>onerror\<close> only for an attempt whose signal is not
    aborted and that it has not finished (\<open>live\<close>);
  \<^item> it calls \<^verbatim>\<open>onmessage\<close> only for an attempt that it has opened and not finished
    (\<open>streaming\<close>). This can still happen after the abort: it delivers the remaining
    messages of the chunk that it is decoding;
  \<^item> it calls \<^verbatim>\<open>onclose\<close> only for an attempt that is live or streaming: after the
    abort, when the chunk that it is decoding was the last one of the stream;
  \<^item> it finishes an attempt when \<^verbatim>\<open>onclose\<close> has returned and when \<^verbatim>\<open>onerror\<close> throws;
    after an \<^verbatim>\<open>onerror\<close> that returned it retries on its own, with the same callbacks.
  Otherwise it may call back in any order and any number of times. An exception thrown by
  \<^verbatim>\<open>onopen\<close>, \<^verbatim>\<open>onmessage\<close> or \<^verbatim>\<open>onclose\<close> makes the library call \<^verbatim>\<open>onerror\<close>, which is
  one of the calls it may make anyway.
  The first rule rests on the \<^verbatim>\<open>fetch\<close> function: the platform's rejects when the signal
  is aborted, and a custom one is taken to do the same.
\<close>

definition live :: "('e, 'r) hook \<Rightarrow> nat \<Rightarrow> bool" where
  "live s k = (k < length (attempts s) \<and> \<not> aborted (attempts s ! k) \<and> \<not> ended (attempts s ! k))"

definition streaming :: "('e, 'r) hook \<Rightarrow> nat \<Rightarrow> bool" where
  "streaming s k =
     (k < length (attempts s) \<and> opened (attempts s ! k) \<and> \<not> ended (attempts s ! k))"

definition mark_opened :: "nat \<Rightarrow> ('e, 'r) hook \<Rightarrow> ('e, 'r) hook" where
  "mark_opened k s = s\<lparr>attempts := (attempts s)[k := (attempts s ! k)\<lparr>opened := True\<rparr>]\<rparr>"

definition end_attempt :: "nat \<Rightarrow> ('e, 'r) hook \<Rightarrow> ('e, 'r) hook" where
  "end_attempt k s = s\<lparr>attempts := (attempts s)[k := (attempts s ! k)\<lparr>ended := True\<rparr>]\<rparr>"

text \<open>The function given to \<^verbatim>\<open>setTimeout\<close> runs: timer \<open>i\<close> fires, once.\<close>

definition timeout :: "nat \<Rightarrow> ('e, 'r) hook \<Rightarrow> ('e, 'r) hook" where
  "timeout i s =
     (if i < length (timers s) \<and> \<not> fired (timers s ! i) then
        (let t = timers s ! i;
             s1 = s\<lparr>timers := (timers s)[i := t\<lparr>fired := True\<rparr>]\<rparr>
         in if \<not> aborted (attempts s1 ! t_controller t)
            then start (closure (attempts s1 ! t_controller t)) s1 else s1)
      else s)"

text \<open>The \<^verbatim>\<open>visibilitychange\<close> handler, subscribed only when \<^verbatim>\<open>pauseOnHidden\<close> holds.\<close>

definition handler :: "bool \<Rightarrow> ('e, 'r) hook \<Rightarrow> ('e, 'r) hook" where
  "handler hidden s = (if hidden then abort_current s else start (startMemo s) s)"

text \<open>
  A render with the options \<open>opts\<close>. The observer refs take the latest observers. When a
  dependency of \<^verbatim>\<open>useCallback\<close> changed, \<^verbatim>\<open>start\<close> is created anew, closing over this
  render's \<^verbatim>\<open>lastEventId\<close>; the effect on \<^verbatim>\<open>[start]\<close> runs its cleanup (abort) and
  then the new \<^verbatim>\<open>start\<close>. The visibility listener is subscribed again for the new
  \<^verbatim>\<open>pauseOnHidden\<close>.
\<close>

definition rerender :: "('e, 'r) UseEventSourceOptions \<Rightarrow> ('e, 'r) hook \<Rightarrow> ('e, 'r) hook" where
  "rerender opts s =
     (let s1 = s\<lparr>onOpenRef := onOpen opts, onMessageRef := onMessage opts,
                 onErrorRef := onError opts, onCloseRef := onClose opts,
                 visibilityListener := pauseOnHidden_of opts\<rparr>
      in if same_deps (c_opts (startMemo s1)) opts then s1
         else (let cl = \<lparr>c_opts = opts, c_lastEventId = lastEventId s1\<rparr>
               in start cl (abort_current (s1\<lparr>startMemo := cl\<rparr>))))"

text \<open>
  The component is unmounted: the cleanup of the effect on \<^verbatim>\<open>[start]\<close> aborts the
  current controller, the cleanup of the visibility effect removes the listener.
\<close>

definition unmount :: "('e, 'r) hook \<Rightarrow> ('e, 'r) hook" where
  "unmount s = (abort_current s)\<lparr>visibilityListener := False\<rparr>"

text \<open>The first render and its effects: the refs, \<^verbatim>\<open>start()\<close>, the listener.\<close>

definition mount :: "('e, 'r) UseEventSourceOptions \<Rightarrow> ('e, 'r) hook" where
  "mount opts =
     start \<lparr>c_opts = opts, c_lastEventId = []\<rparr>
       \<lparr>readyState = CONNECTING, lastEventId = [], error = None, events = [],
        controllerRef = None, retryCountRef = 0,
        onOpenRef = onOpen opts, onMessageRef = onMessage opts,
        onErrorRef = onError opts, onCloseRef = onClose opts,
        startMemo = \<lparr>c_opts = opts, c_lastEventId = []\<rparr>,
        visibilityListener = pauseOnHidden_of opts,
        attempts = [], timers = [], observed = []\<rparr>"

datatype ('e, 'r) event =
    Open nat 'r
  | Message nat EventSourceMessage
  | Error nat 'e
  | Close nat
  | Timeout nat
  | VisibilityChange bool
  | CallClose
  | CallReconnect
  | Rerender "('e, 'r) UseEventSourceOptions"
  | Unmount

text \<open>
  One event. A callback that throws keeps the assignments it made. After a throwing
  \<^verbatim>\<open>onerror\<close> the attempt is finished; after an \<^verbatim>\<open>onclose\<close> that returned, too. What
  \<^verbatim>\<open>onopen\<close> or \<^verbatim>\<open>onmessage\<close> throws goes to the transport, whose answer is an error
  event of its own.
\<close>

fun step :: "('e, 'r) event \<Rightarrow> ('e, 'r) hook \<Rightarrow> ('e, 'r) hook" where
  "step (Open k response) s =
     (if live s k then mark_opened k (fst (onopen response s)) else s)"
| "step (Message k message) s = (if streaming s k then fst (onmessage message s) else s)"
| "step (Error k err) s =
     (if live s k then
        (case onerror (closure (attempts s ! k)) k err s of
           (s', None) \<Rightarrow> s'
         | (s', Some thrown) \<Rightarrow> end_attempt k s')
      else s)"
| "step (Close k) s =
     (if live s k \<or> streaming s k then
        (case onclose s of
           (s', None) \<Rightarrow> end_attempt k s'
         | (s', Some thrown) \<Rightarrow> s')
      else s)"
| "step (Timeout i) s = timeout i s"
| "step (VisibilityChange hidden) s = (if visibilityListener s then handler hidden s else s)"
| "step CallClose s = close s"
| "step CallReconnect s = reconnect s"
| "step (Rerender opts) s = rerender opts s"
| "step Unmount s = unmount s"

fun run :: "('e, 'r) event list \<Rightarrow> ('e, 'r) hook \<Rightarrow> ('e, 'r) hook" where
  "run [] s = s"
| "run (ev # evs) s = run evs (step ev s)"

text \<open>Whether the event is an open callback that the transport delivers in the state \<open>s\<close>.\<close>

fun delivers_open :: "('e, 'r) event \<Rightarrow> ('e, 'r) hook \<Rightarrow> bool" where
  "delivers_open (Open k response) s = live s k"
| "delivers_open ev s = False"

text \<open>The state after the events \<open>evs\<close>, from the first render with the options \<open>opts\<close>.\<close>

definition session :: "('e, 'r) UseEventSourceOptions \<Rightarrow> ('e, 'r) event list \<Rightarrow> ('e, 'r) hook" where
  "session opts evs = run evs (mount opts)"

subsection \<open>Invariants\<close>

definition has_retry :: "('e, 'r) attempt \<Rightarrow> bool" where
  "has_retry a = (retryIntervalMs (c_opts (closure a)) \<noteq> None)"

text \<open>
  After the first render \<^verbatim>\<open>controllerRef\<close> holds the controller of the newest attempt,
  every older controller is aborted, a timer belongs to an attempt that exists and whose
  closure has a retry interval, and the retry count is at most \<open>2 ^ 53\<close>.
\<close>

definition wf :: "('e, 'r) hook \<Rightarrow> bool" where
  "wf s =
     (attempts s \<noteq> [] \<and>
      controllerRef s = Some (length (attempts s) - 1) \<and>
      (\<forall>k < length (attempts s) - 1. aborted (attempts s ! k)) \<and>
      (\<forall>i < length (timers s).
         t_controller (timers s ! i) < length (attempts s) \<and>
         has_retry (attempts s ! t_controller (timers s ! i))) \<and>
      retryCountRef s \<le> 2 ^ 53)"

text \<open>
  A state in which nothing is going on: no attempt is live, and every timer that has not
  fired belongs to an aborted controller.
\<close>

definition quiet :: "('e, 'r) hook \<Rightarrow> bool" where
  "quiet s =
     ((\<forall>k < length (attempts s). aborted (attempts s ! k) \<or> ended (attempts s ! k)) \<and>
      (\<forall>i < length (timers s). \<not> fired (timers s ! i) \<longrightarrow>
         t_controller (timers s ! i) < length (attempts s) \<and>
         aborted (attempts s ! t_controller (timers s ! i))))"

text \<open>
  The events that call \<^verbatim>\<open>start()\<close> from outside: \<^verbatim>\<open>reconnect()\<close>, the page becoming
  visible, and a render that changes a dependency of \<^verbatim>\<open>start\<close> (\<open>cl\<close> is the memoised
  closure).
\<close>

fun connects :: "('e, 'r) closure \<Rightarrow> ('e, 'r) event \<Rightarrow> bool" where
  "connects cl CallReconnect = True"
| "connects cl (VisibilityChange hidden) = (\<not> hidden)"
| "connects cl (Rerender opts) = (\<not> same_deps (c_opts cl) opts)"
| "connects cl ev = False"

subsection \<open>Delivered messages\<close>

text \<open>The messages that the message callback receives during \<open>evs\<close>, from \<open>s\<close>, in order.\<close>

fun delivered :: "('e, 'r) event list \<Rightarrow> ('e, 'r) hook \<Rightarrow> EventSourceMessage list" where
  "delivered [] s = []"
| "delivered (Message k message # evs) s =
     (if streaming s k then [message] else []) @ delivered evs (step (Message k message) s)"
| "delivered (ev # evs) s = delivered evs (step ev s)"

subsection \<open>Outstanding attempts\<close>

text \<open>The controllers that are not aborted, and the attempts that are live.\<close>

definition outstanding :: "('e, 'r) hook \<Rightarrow> nat list" where
  "outstanding s = filter (\<lambda>k. \<not> aborted (attempts s ! k)) [0 ..< length (attempts s)]"

definition active :: "('e, 'r) hook \<Rightarrow> nat list" where
  "active s = filter (live s) [0 ..< length (attempts s)]"

text \<open>From \<open>s\<close> to \<open>s'\<close> no attempt disappears and no abort is undone.\<close>

definition keeps_aborted :: "('e, 'r) hook \<Rightarrow> ('e, 'r) hook \<Rightarrow> bool" where
  "keeps_aborted s s' =
     (length (attempts s) \<le> length (attempts s') \<and>
      (\<forall>k < length (attempts s). aborted (attempts s ! k) \<longrightarrow> aborted (attempts s' ! k)))"

text \<open>
  An attempt that was aborted before the transport opened it: by the rules of the
  environment the transport makes no callback for it.
\<close>

definition silenced :: "('e, 'r) hook \<Rightarrow> nat \<Rightarrow> bool" where
  "silenced s k =
     (k < length (attempts s) \<and> aborted (attempts s ! k) \<and> \<not> opened (attempts s ! k))"

subsection \<open>The backoff schedule\<close>

text \<open>
  The specification's formula, on the integers: delay(n) = min(base * 2^n, cap), the cap
  being infinite when it is absent.
\<close>

definition delay_spec :: "int \<Rightarrow> int option \<Rightarrow> nat \<Rightarrow> int" where
  "delay_spec base cap n = (case cap of None \<Rightarrow> base * 2 ^ n | Some c \<Rightarrow> min (base * 2 ^ n) c)"

text \<open>
  The counts at which the doubles give the formula: the product is finite, or the
  interval is positive and there is a maximum, which is then the minimum.
\<close>

definition in_range :: "int \<Rightarrow> int option \<Rightarrow> nat \<Rightarrow> bool" where
  "in_range b c n =
     ((n < 1024 \<and> \<bar>b\<bar> * 2 ^ n < 2 ^ 1024) \<or>
      (0 < b \<and> (case c of None \<Rightarrow> False | Some m \<Rightarrow> m < 2 ^ 1024)))"

text \<open>The expression of the source, for the retry count \<open>n\<close>.\<close>

definition retry_delay :: "number \<Rightarrow> number option \<Rightarrow> nat \<Rightarrow> number" where
  "retry_delay base cap n =
     Math_min (times_pow2 base n) (case cap of None \<Rightarrow> Infinity | Some c \<Rightarrow> c)"

definition policy :: "('e, 'r) closure \<Rightarrow> number option \<times> number option" where
  "policy cl = (retryIntervalMs (c_opts cl), maxRetryIntervalMs (c_opts cl))"

text \<open>Every closure of the state has the retry interval \<open>base\<close> and the maximum \<open>cap\<close>.\<close>

definition uniform :: "number \<Rightarrow> number option \<Rightarrow> ('e, 'r) hook \<Rightarrow> bool" where
  "uniform base cap s =
     (policy (startMemo s) = (Some base, cap) \<and>
      list_all (\<lambda>a. policy (closure a) = (Some base, cap)) (attempts s))"

text \<open>An event that leaves the configured retry policy as it is.\<close>

fun same_policy :: "number \<Rightarrow> number option \<Rightarrow> ('e, 'r) event \<Rightarrow> bool" where
  "same_policy base cap (Rerender opts) =
     (retryIntervalMs opts = Some base \<and> maxRetryIntervalMs opts = cap)"
| "same_policy base cap ev = True"

text \<open>An event that can follow a successful open before the next one: any but an open.\<close>

fun since_open :: "number \<Rightarrow> number option \<Rightarrow> ('e, 'r) event \<Rightarrow> bool" where
  "since_open base cap (Open k response) = False"
| "since_open base cap (Rerender opts) =
     (retryIntervalMs opts = Some base \<and> maxRetryIntervalMs opts = cap)"
| "since_open base cap ev = True"

text \<open>
  The number of error callbacks during \<open>evs\<close>, from \<open>s\<close>, that the transport delivers
  and whose error observer, if there is one, returns.
\<close>

fun failures :: "('e, 'r) event list \<Rightarrow> ('e, 'r) hook \<Rightarrow> nat" where
  "failures [] s = 0"
| "failures (Error k err # evs) s =
     (if live s k \<and> call_observer (onErrorRef s) err = None then 1 else 0) +
     failures evs (step (Error k err) s)"
| "failures (ev # evs) s = failures evs (step ev s)"

subsection \<open>The closure of the first render\<close>

text \<open>An event that changes no dependency of \<^verbatim>\<open>start\<close>, for the options \<open>opts\<close>.\<close>

fun keeps_deps :: "('e, 'r) UseEventSourceOptions \<Rightarrow> ('e, 'r) event \<Rightarrow> bool" where
  "keeps_deps opts (Rerender opts') = same_deps opts opts'"
| "keeps_deps opts ev = True"

definition first_closure :: "('e, 'r) UseEventSourceOptions \<Rightarrow> ('e, 'r) closure" where
  "first_closure opts = \<lparr>c_opts = opts, c_lastEventId = []\<rparr>"

text \<open>
  The memoised \<^verbatim>\<open>start\<close> is still the one of the first render, and every attempt was
  made by it.
\<close>

definition stale :: "('e, 'r) UseEventSourceOptions \<Rightarrow> ('e, 'r) hook \<Rightarrow> bool" where
  "stale opts s =
     (startMemo s = first_closure opts \<and>
      list_all
        (\<lambda>a. closure a = first_closure opts \<and> request a = build_request (first_closure opts))
        (attempts s))"

subsection \<open>Sample inputs\<close>

text \<open>Observers that return; no retry policy.\<close>

definition opts_plain :: "(string, nat) UseEventSourceOptions" where
  "opts_plain =
     \<lparr>url = ''/api/events'', withCredentials = None, init = None, fetch = None,
      retryIntervalMs = None, maxRetryIntervalMs = None, pauseOnHidden = None,
      onOpen = Some (\<lambda>response. None), onMessage = Some (\<lambda>message. None),
      onError = Some (\<lambda>err. None), onClose = Some (\<lambda>u. None)\<rparr>"

definition opts_retry :: "(string, nat) UseEventSourceOptions" where
  "opts_retry =
     opts_plain\<lparr>retryIntervalMs := Some (Num 1000), maxRetryIntervalMs := Some (Num 30000)\<rparr>"

text \<open>An error observer that throws the error it is given.\<close>

definition opts_plain_throwing :: "(string, nat) UseEventSourceOptions" where
  "opts_plain_throwing = opts_plain\<lparr>onError := Some (\<lambda>err. Some err)\<rparr>"

definition opts_retry_throwing :: "(string, nat) UseEventSourceOptions" where
  "opts_retry_throwing = opts_retry\<lparr>onError := Some (\<lambda>err. Some err)\<rparr>"

text \<open>A retry interval without a maximum.\<close>

definition opts_uncapped :: "(string, nat) UseEventSourceOptions" where
  "opts_uncapped = opts_plain\<lparr>retryIntervalMs := Some (Num 1000)\<rparr>"

definition msg_with_id :: EventSourceMessage where
  "msg_with_id = \<lparr>msg_id = Some ''42'', msg_event = ''message'', msg_data = ''first''\<rparr>"

text \<open>A message without an \<^verbatim>\<open>id\<close> field, as the transport delivers it.\<close>

definition msg_empty_id :: EventSourceMessage where
  "msg_empty_id = \<lparr>msg_id = Some [], msg_event = ''message'', msg_data = ''second''\<rparr>"

text \<open>Seven failed attempts in a row, each retried by its timer.\<close>

definition seven_failures :: "(string, nat) event list" where
  "seven_failures =
     [Error 0 ''boom'', Timeout 0, Error 1 ''boom'', Timeout 1, Error 2 ''boom'', Timeout 2,
      Error 3 ''boom'', Timeout 3, Error 4 ''boom'', Timeout 4, Error 5 ''boom'', Timeout 5,
      Error 6 ''boom'']"

text \<open>
  \<open>n\<close> failed attempts in a row, each retried by its timer: the attempt \<open>i\<close> fails,
  the timer \<open>i\<close> fires and starts the attempt \<open>i + 1\<close>.
\<close>

fun cycles :: "nat \<Rightarrow> (string, nat) event list" where
  "cycles 0 = []"
| "cycles (Suc n) = cycles n @ [Error n ''boom'', Timeout n]"

text \<open>Events that call \<^verbatim>\<open>start()\<close> nowhere, for a session with the options \<open>opts\<close>.\<close>

definition quiet_events :: "(string, nat) UseEventSourceOptions \<Rightarrow> (string, nat) event list" where
  "quiet_events opts =
     [Timeout 0, Open 0 200, Message 0 msg_with_id, Error 0 ''late'', Close 0,
      VisibilityChange True, Rerender opts, CallClose, Unmount, Timeout 0]"

section \<open>Basic facts\<close>

lemma nth_modify:
  "xs[i := f (xs ! i)] ! k = (if i = k \<and> k < length xs then f (xs ! k) else xs ! k)"
proof (cases "i < length xs")
  case True
  then show ?thesis by (auto simp: nth_list_update)
next
  case False
  then have "xs[i := f (xs ! i)] = xs" by (simp add: list_update_beyond)
  with False show ?thesis by auto
qed

lemma abort_current_other [simp]:
  "readyState (abort_current s) = readyState s"
  "lastEventId (abort_current s) = lastEventId s"
  "error (abort_current s) = error s"
  "events (abort_current s) = events s"
  "controllerRef (abort_current s) = controllerRef s"
  "retryCountRef (abort_current s) = retryCountRef s"
  "onOpenRef (abort_current s) = onOpenRef s"
  "onMessageRef (abort_current s) = onMessageRef s"
  "onErrorRef (abort_current s) = onErrorRef s"
  "onCloseRef (abort_current s) = onCloseRef s"
  "startMemo (abort_current s) = startMemo s"
  "visibilityListener (abort_current s) = visibilityListener s"
  "timers (abort_current s) = timers s"
  "observed (abort_current s) = observed s"
  "length (attempts (abort_current s)) = length (attempts s)"
  by (simp_all add: abort_current_def split: option.split)

lemma abort_current_nth:
  "aborted (attempts (abort_current s) ! k) =
     (aborted (attempts s ! k) \<or> (controllerRef s = Some k \<and> k < length (attempts s)))"
  "opened (attempts (abort_current s) ! k) = opened (attempts s ! k)"
  "ended (attempts (abort_current s) ! k) = ended (attempts s ! k)"
  "closure (attempts (abort_current s) ! k) = closure (attempts s ! k)"
  "request (attempts (abort_current s) ! k) = request (attempts s ! k)"
  by (auto simp: abort_current_def nth_modify split: option.split)

lemma attempts_abort_current_Nil [simp]:
  "attempts (abort_current s) = [] \<longleftrightarrow> attempts s = []"
  using abort_current_other(15)[of s] by (metis length_0_conv)

lemma start_other [simp]:
  "readyState (start cl s) = CONNECTING"
  "lastEventId (start cl s) = lastEventId s"
  "error (start cl s) = error s"
  "events (start cl s) = events s"
  "controllerRef (start cl s) = Some (length (attempts s))"
  "retryCountRef (start cl s) = retryCountRef s"
  "onOpenRef (start cl s) = onOpenRef s"
  "onMessageRef (start cl s) = onMessageRef s"
  "onErrorRef (start cl s) = onErrorRef s"
  "onCloseRef (start cl s) = onCloseRef s"
  "startMemo (start cl s) = startMemo s"
  "visibilityListener (start cl s) = visibilityListener s"
  "timers (start cl s) = timers s"
  "observed (start cl s) = observed s"
  "attempts (start cl s) =
     attempts (abort_current s) @
       [\<lparr>aborted = False, opened = False, ended = False,
         request = build_request cl, closure = cl\<rparr>]"
  by (simp_all add: start_def Let_def)

lemma end_attempt_other [simp]:
  "readyState (end_attempt k s) = readyState s"
  "lastEventId (end_attempt k s) = lastEventId s"
  "error (end_attempt k s) = error s"
  "events (end_attempt k s) = events s"
  "controllerRef (end_attempt k s) = controllerRef s"
  "retryCountRef (end_attempt k s) = retryCountRef s"
  "onOpenRef (end_attempt k s) = onOpenRef s"
  "onMessageRef (end_attempt k s) = onMessageRef s"
  "onErrorRef (end_attempt k s) = onErrorRef s"
  "onCloseRef (end_attempt k s) = onCloseRef s"
  "startMemo (end_attempt k s) = startMemo s"
  "visibilityListener (end_attempt k s) = visibilityListener s"
  "timers (end_attempt k s) = timers s"
  "observed (end_attempt k s) = observed s"
  "length (attempts (end_attempt k s)) = length (attempts s)"
  by (simp_all add: end_attempt_def)

lemma end_attempt_nth:
  "aborted (attempts (end_attempt k s) ! j) = aborted (attempts s ! j)"
  "opened (attempts (end_attempt k s) ! j) = opened (attempts s ! j)"
  "ended (attempts (end_attempt k s) ! j) =
     (ended (attempts s ! j) \<or> (j = k \<and> j < length (attempts s)))"
  "closure (attempts (end_attempt k s) ! j) = closure (attempts s ! j)"
  "request (attempts (end_attempt k s) ! j) = request (attempts s ! j)"
  by (auto simp: end_attempt_def nth_modify)

lemma attempts_end_attempt_Nil [simp]:
  "attempts (end_attempt k s) = [] \<longleftrightarrow> attempts s = []"
  by (simp add: end_attempt_def)

lemma mark_opened_other [simp]:
  "readyState (mark_opened k s) = readyState s"
  "lastEventId (mark_opened k s) = lastEventId s"
  "error (mark_opened k s) = error s"
  "events (mark_opened k s) = events s"
  "controllerRef (mark_opened k s) = controllerRef s"
  "retryCountRef (mark_opened k s) = retryCountRef s"
  "onOpenRef (mark_opened k s) = onOpenRef s"
  "onMessageRef (mark_opened k s) = onMessageRef s"
  "onErrorRef (mark_opened k s) = onErrorRef s"
  "onCloseRef (mark_opened k s) = onCloseRef s"
  "startMemo (mark_opened k s) = startMemo s"
  "visibilityListener (mark_opened k s) = visibilityListener s"
  "timers (mark_opened k s) = timers s"
  "observed (mark_opened k s) = observed s"
  "length (attempts (mark_opened k s)) = length (attempts s)"
  by (simp_all add: mark_opened_def)

lemma mark_opened_nth:
  "aborted (attempts (mark_opened k s) ! j) = aborted (attempts s ! j)"
  "opened (attempts (mark_opened k s) ! j) =
     (opened (attempts s ! j) \<or> (j = k \<and> j < length (attempts s)))"
  "ended (attempts (mark_opened k s) ! j) = ended (attempts s ! j)"
  "closure (attempts (mark_opened k s) ! j) = closure (attempts s ! j)"
  "request (attempts (mark_opened k s) ! j) = request (attempts s ! j)"
  by (auto simp: mark_opened_def nth_modify)

lemma attempts_mark_opened_Nil [simp]:
  "attempts (mark_opened k s) = [] \<longleftrightarrow> attempts s = []"
  by (simp add: mark_opened_def)

lemma onopen_other [simp]:
  "readyState (fst (onopen response s)) = OPEN"
  "lastEventId (fst (onopen response s)) = lastEventId s"
  "error (fst (onopen response s)) = error s"
  "events (fst (onopen response s)) = events s"
  "controllerRef (fst (onopen response s)) = controllerRef s"
  "retryCountRef (fst (onopen response s)) = 0"
  "onOpenRef (fst (onopen response s)) = onOpenRef s"
  "onMessageRef (fst (onopen response s)) = onMessageRef s"
  "onErrorRef (fst (onopen response s)) = onErrorRef s"
  "onCloseRef (fst (onopen response s)) = onCloseRef s"
  "startMemo (fst (onopen response s)) = startMemo s"
  "visibilityListener (fst (onopen response s)) = visibilityListener s"
  "timers (fst (onopen response s)) = timers s"
  "attempts (fst (onopen response s)) = attempts s"
  "observed (fst (onopen response s)) =
     (case onOpenRef s of None \<Rightarrow> observed s | Some f \<Rightarrow> observed s @ [OnOpen response])"
  "snd (onopen response s) = call_observer (onOpenRef s) response"
  by (simp_all add: onopen_def Let_def split: option.split)

lemma onmessage_other [simp]:
  "readyState (fst (onmessage message s)) = readyState s"
  "lastEventId (fst (onmessage message s)) = (case msg_id message of None \<Rightarrow> [] | Some i \<Rightarrow> i)"
  "error (fst (onmessage message s)) = error s"
  "events (fst (onmessage message s)) = events s @ [message]"
  "controllerRef (fst (onmessage message s)) = controllerRef s"
  "retryCountRef (fst (onmessage message s)) = retryCountRef s"
  "onOpenRef (fst (onmessage message s)) = onOpenRef s"
  "onMessageRef (fst (onmessage message s)) = onMessageRef s"
  "onErrorRef (fst (onmessage message s)) = onErrorRef s"
  "onCloseRef (fst (onmessage message s)) = onCloseRef s"
  "startMemo (fst (onmessage message s)) = startMemo s"
  "visibilityListener (fst (onmessage message s)) = visibilityListener s"
  "timers (fst (onmessage message s)) = timers s"
  "attempts (fst (onmessage message s)) = attempts s"
  "observed (fst (onmessage message s)) =
     (case onMessageRef s of None \<Rightarrow> observed s | Some f \<Rightarrow> observed s @ [OnMessage message])"
  "snd (onmessage message s) = call_observer (onMessageRef s) message"
  by (simp_all add: onmessage_def Let_def split: option.split)

lemma onclose_other [simp]:
  "readyState (fst (onclose s)) = CLOSED"
  "lastEventId (fst (onclose s)) = lastEventId s"
  "error (fst (onclose s)) = error s"
  "events (fst (onclose s)) = events s"
  "controllerRef (fst (onclose s)) = controllerRef s"
  "retryCountRef (fst (onclose s)) = retryCountRef s"
  "onOpenRef (fst (onclose s)) = onOpenRef s"
  "onMessageRef (fst (onclose s)) = onMessageRef s"
  "onErrorRef (fst (onclose s)) = onErrorRef s"
  "onCloseRef (fst (onclose s)) = onCloseRef s"
  "startMemo (fst (onclose s)) = startMemo s"
  "visibilityListener (fst (onclose s)) = visibilityListener s"
  "timers (fst (onclose s)) = timers s"
  "attempts (fst (onclose s)) = attempts s"
  "observed (fst (onclose s)) =
     (case onCloseRef s of None \<Rightarrow> observed s | Some f \<Rightarrow> observed s @ [OnClose])"
  "snd (onclose s) = call_observer (onCloseRef s) ()"
  by (simp_all add: onclose_def Let_def split: option.split)

text \<open>The error callback, by what the observer does and whether a retry is configured.\<close>

lemma onerror_other [simp]:
  "lastEventId (fst (onerror cl c err s)) = lastEventId s"
  "error (fst (onerror cl c err s)) = Some err"
  "events (fst (onerror cl c err s)) = events s"
  "controllerRef (fst (onerror cl c err s)) = controllerRef s"
  "onOpenRef (fst (onerror cl c err s)) = onOpenRef s"
  "onMessageRef (fst (onerror cl c err s)) = onMessageRef s"
  "onErrorRef (fst (onerror cl c err s)) = onErrorRef s"
  "onCloseRef (fst (onerror cl c err s)) = onCloseRef s"
  "startMemo (fst (onerror cl c err s)) = startMemo s"
  "visibilityListener (fst (onerror cl c err s)) = visibilityListener s"
  "attempts (fst (onerror cl c err s)) = attempts s"
  "observed (fst (onerror cl c err s)) =
     (case onErrorRef s of None \<Rightarrow> observed s | Some f \<Rightarrow> observed s @ [OnError err])"
  by (simp_all add: onerror_def Let_def split: option.split)

lemma onerror_readyState:
  "readyState (fst (onerror cl c err s)) =
     (if call_observer (onErrorRef s) err = None then CLOSED else readyState s)"
  by (simp add: onerror_def Let_def split: option.split)

lemma onerror_thrown:
  "snd (onerror cl c err s) =
     (case call_observer (onErrorRef s) err of
        Some thrown \<Rightarrow> Some thrown
      | None \<Rightarrow> if retryIntervalMs (c_opts cl) = None then Some err else None)"
  by (simp add: onerror_def Let_def split: option.split)

lemma onerror_retry:
  "retryCountRef (fst (onerror cl c err s)) =
     (if call_observer (onErrorRef s) err = None \<and> retryIntervalMs (c_opts cl) \<noteq> None
      then increment (retryCountRef s) else retryCountRef s)"
  "timers (fst (onerror cl c err s)) =
     (if call_observer (onErrorRef s) err = None \<and> retryIntervalMs (c_opts cl) \<noteq> None
      then timers s @
        [\<lparr>t_controller = c,
          t_delay = retry_delay (the (retryIntervalMs (c_opts cl)))
                      (maxRetryIntervalMs (c_opts cl)) (retryCountRef s),
          fired = False\<rparr>]
      else timers s)"
  by (auto simp: onerror_def Let_def retry_delay_def split: option.split)

lemma run_append: "run (xs @ ys) s = run ys (run xs s)"
  by (induction xs arbitrary: s) simp_all

lemma session_append: "session opts (pre @ evs) = run evs (session opts pre)"
  by (simp add: session_def run_append)

lemma increment_alt: "increment n = (if n < 2 ^ 53 then n + 1 else n)"
proof -
  have "int n < 2 ^ 53 \<longleftrightarrow> n < 2 ^ 53"
    using of_nat_less_iff[of n "2 ^ 53", where ?'a = int] by simp
  then show ?thesis by (simp add: increment_def)
qed

lemma increment_le: "n \<le> 2 ^ 53 \<Longrightarrow> increment n \<le> 2 ^ 53"
  by (simp add: increment_alt)

lemma increment_ge: "n \<le> increment n"
  by (simp add: increment_alt)

section \<open>The error and the close event, by whether the callback throws\<close>

lemma step_Error:
  "step (Error k err) s =
     (if live s k then
        (if snd (onerror (closure (attempts s ! k)) k err s) = None
         then fst (onerror (closure (attempts s ! k)) k err s)
         else end_attempt k (fst (onerror (closure (attempts s ! k)) k err s)))
      else s)"
  by (cases "onerror (closure (attempts s ! k)) k err s")
     (simp del: onerror_other split: option.split)

lemma step_Close:
  "step (Close k) s =
     (if live s k \<or> streaming s k then
        (if snd (onclose s) = None then end_attempt k (fst (onclose s)) else fst (onclose s))
      else s)"
  by (cases "onclose s") (simp del: onclose_other split: option.split)

declare step.simps(3) [simp del]
declare step.simps(4) [simp del]
declare step_Error [simp]
declare step_Close [simp]

section \<open>The newest controller is the only one that is not aborted\<close>

lemma wf_abort_current: "wf s \<Longrightarrow> wf (abort_current s)"
  by (auto simp: wf_def abort_current_nth has_retry_def)

lemma wf_start: "wf s \<Longrightarrow> wf (start cl s)"
  by (auto simp: wf_def abort_current_nth has_retry_def nth_append less_Suc_eq)

lemma wf_mount: "wf (mount opts)"
  by (simp add: mount_def wf_def)

lemma wf_onopen: "wf s \<Longrightarrow> wf (fst (onopen r s))"
  by (simp add: wf_def)

lemma wf_onmessage: "wf s \<Longrightarrow> wf (fst (onmessage m s))"
  by (simp add: wf_def)

lemma wf_onclose: "wf s \<Longrightarrow> wf (fst (onclose s))"
  by (simp add: wf_def)

lemma wf_end_attempt: "wf s \<Longrightarrow> wf (end_attempt k s)"
  by (auto simp: wf_def end_attempt_nth has_retry_def)

lemma wf_mark_opened: "wf s \<Longrightarrow> wf (mark_opened k s)"
  by (auto simp: wf_def mark_opened_nth has_retry_def)

lemma wf_onerror:
  "wf s \<Longrightarrow> k < length (attempts s) \<Longrightarrow> wf (fst (onerror (closure (attempts s ! k)) k err s))"
  using increment_le[of "retryCountRef s"]
  by (auto simp: wf_def onerror_retry nth_append has_retry_def less_Suc_eq)

lemma wf_fire:
  "wf s \<Longrightarrow> wf (s\<lparr>timers := (timers s)[i := (timers s ! i)\<lparr>fired := True\<rparr>]\<rparr>)"
  by (auto simp: wf_def nth_modify)

lemma wf_timeout: "wf s \<Longrightarrow> wf (timeout i s)"
  using wf_fire[of s i] by (simp add: timeout_def Let_def wf_start)

lemma wf_close: "wf s \<Longrightarrow> wf (close s)"
  using wf_abort_current[of s] by (simp add: close_def wf_def)

lemma wf_unmount: "wf s \<Longrightarrow> wf (unmount s)"
  using wf_abort_current[of s] by (simp add: unmount_def wf_def)

lemma wf_rerender: "wf s \<Longrightarrow> wf (rerender opts s)"
  by (auto simp: rerender_def Let_def wf_def abort_current_nth has_retry_def nth_append
                 less_Suc_eq)

lemma wf_step: "wf s \<Longrightarrow> wf (step ev s)"
proof (cases ev)
  case (Error k err)
  then show "wf s \<Longrightarrow> wf (step ev s)"
    using wf_onerror[of s k err]
      wf_end_attempt[of "fst (onerror (closure (attempts s ! k)) k err s)" k]
    by (auto simp: live_def)
qed (auto simp: wf_onopen wf_onmessage wf_onclose wf_end_attempt wf_mark_opened wf_timeout
      wf_close wf_start wf_abort_current wf_rerender wf_unmount reconnect_def handler_def)

lemma wf_run: "wf s \<Longrightarrow> wf (run evs s)"
  by (induction evs arbitrary: s) (simp_all add: wf_step)

lemma wf_session: "wf (session opts evs)"
  by (simp add: session_def wf_run wf_mount)

lemma wf_aborted_or_last:
  "wf s \<Longrightarrow> k < length (attempts s) \<Longrightarrow>
   aborted (attempts s ! k) \<or> controllerRef s = Some k"
  by (cases "k < length (attempts s) - 1") (auto simp: wf_def)

section \<open>Nothing is started in a quiet state until something connects\<close>

lemma quiet_abort_current: "quiet s \<Longrightarrow> quiet (abort_current s)"
  by (auto simp: quiet_def abort_current_nth)

lemma quiet_timeout_eq:
  assumes "quiet s"
  shows "timeout i s =
     (if i < length (timers s) \<and> \<not> fired (timers s ! i)
      then s\<lparr>timers := (timers s)[i := (timers s ! i)\<lparr>fired := True\<rparr>]\<rparr> else s)"
  using assms by (simp add: timeout_def Let_def quiet_def)

lemma quiet_fire:
  "quiet s \<Longrightarrow> quiet (s\<lparr>timers := (timers s)[i := (timers s ! i)\<lparr>fired := True\<rparr>]\<rparr>)"
  by (auto simp: quiet_def nth_modify)

lemma quiet_not_live: "quiet s \<Longrightarrow> \<not> live s k"
  by (auto simp: quiet_def live_def)

text \<open>
  In a quiet state an event that does not connect creates no attempt and schedules no
  timer; the connection state stays as it is or becomes CLOSED.
\<close>

lemma quiet_step:
  assumes "quiet s" and "\<not> connects (startMemo s) ev"
  shows "quiet (step ev s) \<and> length (attempts (step ev s)) = length (attempts s) \<and>
         length (timers (step ev s)) = length (timers s) \<and>
         startMemo (step ev s) = startMemo s \<and>
         (readyState (step ev s) = readyState s \<or> readyState (step ev s) = CLOSED)"
proof (cases ev)
  case (Timeout i)
  then show ?thesis using quiet_timeout_eq[OF assms(1), of i] quiet_fire[OF assms(1), of i] assms(1)
    by simp
next
  case (VisibilityChange hidden)
  then show ?thesis using assms quiet_abort_current[of s] by (simp add: handler_def)
next
  case CallClose
  then show ?thesis using assms quiet_abort_current[of s] by (simp add: close_def quiet_def)
next
  case (Rerender opts)
  then show ?thesis using assms by (simp add: rerender_def quiet_def)
next
  case Unmount
  then show ?thesis using assms quiet_abort_current[of s] by (simp add: unmount_def quiet_def)
next
  case (Open k r)
  then show ?thesis using assms quiet_not_live[of s k] by simp
next
  case (Message k m)
  then show ?thesis using assms by (simp add: quiet_def)
next
  case (Error k e)
  then show ?thesis using assms quiet_not_live[of s k] by simp
next
  case (Close k)
  have "quiet (fst (onclose s))" "quiet (end_attempt k (fst (onclose s)))"
    using assms(1) by (auto simp: quiet_def end_attempt_nth)
  then show ?thesis using Close assms(1) by simp
next
  case CallReconnect
  then show ?thesis using assms by simp
qed

lemma quiet_run:
  "quiet s \<Longrightarrow> list_all (\<lambda>ev. \<not> connects (startMemo s) ev) evs \<Longrightarrow>
   quiet (run evs s) \<and>
   length (attempts (run evs s)) = length (attempts s) \<and>
   length (timers (run evs s)) = length (timers s) \<and>
   (readyState (run evs s) = readyState s \<or> readyState (run evs s) = CLOSED)"
proof (induction evs arbitrary: s)
  case Nil
  then show ?case by simp
next
  case (Cons ev evs)
  from Cons.prems have st: "quiet (step ev s)"
    "length (attempts (step ev s)) = length (attempts s)"
    "length (timers (step ev s)) = length (timers s)"
    "startMemo (step ev s) = startMemo s"
    "readyState (step ev s) = readyState s \<or> readyState (step ev s) = CLOSED"
    using quiet_step[of s ev] by simp_all
  from Cons.IH[of "step ev s"] st Cons.prems(2)
  have "quiet (run evs (step ev s)) \<and>
        length (attempts (run evs (step ev s))) = length (attempts (step ev s)) \<and>
        length (timers (run evs (step ev s))) = length (timers (step ev s)) \<and>
        (readyState (run evs (step ev s)) = readyState (step ev s) \<or>
         readyState (run evs (step ev s)) = CLOSED)"
    by simp
  with st show ?case by auto
qed

lemma quiet_close: "wf s \<Longrightarrow> quiet (close s)"
  using wf_aborted_or_last[of s]
  by (auto simp: wf_def quiet_def close_def abort_current_nth)

section \<open>What one event does to the retry count, the recorded error and lastEventId\<close>

lemma retryCountRef_step:
  "retryCountRef (step ev s) =
     (case ev of
        Open k r \<Rightarrow> if live s k then 0 else retryCountRef s
      | Error k e \<Rightarrow>
          if live s k \<and> call_observer (onErrorRef s) e = None \<and> has_retry (attempts s ! k)
          then increment (retryCountRef s) else retryCountRef s
      | _ \<Rightarrow> retryCountRef s)"
  by (cases ev)
     (auto simp: onerror_retry timeout_def handler_def close_def reconnect_def rerender_def
        unmount_def has_retry_def Let_def)

lemma error_step:
  "error (step ev s) =
     (case ev of Error k e \<Rightarrow> if live s k then Some e else error s | _ \<Rightarrow> error s)"
  by (cases ev)
     (auto simp: timeout_def handler_def close_def reconnect_def rerender_def unmount_def
        Let_def)

lemma lastEventId_step:
  "lastEventId (step ev s) =
     (case ev of
        Message k m \<Rightarrow>
          if streaming s k then (case msg_id m of None \<Rightarrow> [] | Some i \<Rightarrow> i)
          else lastEventId s
      | _ \<Rightarrow> lastEventId s)"
  by (cases ev)
     (auto simp: timeout_def handler_def close_def reconnect_def rerender_def unmount_def
        Let_def)

lemma events_step:
  "events (step ev s) =
     (case ev of
        Message k m \<Rightarrow> if streaming s k then events s @ [m] else events s
      | _ \<Rightarrow> events s)"
  by (cases ev)
     (auto simp: timeout_def handler_def close_def reconnect_def rerender_def unmount_def
        Let_def)

lemma error_run_kept:
  "error s = Some e \<Longrightarrow>
   error (run evs s) = Some e \<or> (\<exists>k e'. Error k e' \<in> set evs \<and> error (run evs s) = Some e')"
proof (induction evs arbitrary: s e)
  case Nil
  then show ?case by simp
next
  case (Cons ev evs)
  show ?case
  proof (cases "error (step ev s) = Some e")
    case True
    from Cons.IH[OF True] show ?thesis by auto
  next
    case False
    then obtain k e' where ev: "ev = Error k e'" and e': "error (step ev s) = Some e'"
      using Cons.prems unfolding error_step by (cases ev) (auto split: if_splits)
    from Cons.IH[OF e'] ev show ?thesis by auto
  qed
qed

section \<open>An aborted controller stays aborted\<close>

lemma keeps_aborted_refl: "keeps_aborted s s"
  by (simp add: keeps_aborted_def)

lemma keeps_aborted_trans:
  "keeps_aborted s s' \<Longrightarrow> keeps_aborted s' s'' \<Longrightarrow> keeps_aborted s s''"
  by (auto simp: keeps_aborted_def)

lemma keeps_aborted_abort_current: "keeps_aborted s (abort_current s)"
  by (simp add: keeps_aborted_def abort_current_nth)

lemma keeps_aborted_end_attempt: "keeps_aborted s (end_attempt k s)"
  by (simp add: keeps_aborted_def end_attempt_nth)

lemma keeps_aborted_mark_opened: "keeps_aborted s (mark_opened k s)"
  by (simp add: keeps_aborted_def mark_opened_nth)

lemma keeps_aborted_start: "keeps_aborted s (start cl s)"
  by (simp add: keeps_aborted_def abort_current_nth nth_append)

lemma keeps_aborted_same: "attempts s' = attempts s \<Longrightarrow> keeps_aborted s s'"
  by (simp add: keeps_aborted_def)

lemma keeps_aborted_before: "attempts s' = attempts s \<Longrightarrow> keeps_aborted s' t \<Longrightarrow> keeps_aborted s t"
  by (simp add: keeps_aborted_def)

lemma keeps_aborted_step: "keeps_aborted s (step ev s)"
proof (cases ev)
  case (Open k r)
  have "keeps_aborted s (mark_opened k (fst (onopen r s)))"
    by (rule keeps_aborted_before[OF _ keeps_aborted_mark_opened]) simp
  then show ?thesis using Open by (simp add: keeps_aborted_refl)
next
  case (Message k m)
  then show ?thesis by (simp add: keeps_aborted_same keeps_aborted_refl)
next
  case (Error k e)
  have "keeps_aborted s (end_attempt k (fst (onerror (closure (attempts s ! k)) k e s)))"
    by (rule keeps_aborted_before[OF _ keeps_aborted_end_attempt]) simp
  then show ?thesis using Error by (simp add: keeps_aborted_refl keeps_aborted_same)
next
  case (Close k)
  have "keeps_aborted s (end_attempt k (fst (onclose s)))"
    by (rule keeps_aborted_before[OF _ keeps_aborted_end_attempt]) simp
  then show ?thesis using Close by (simp add: keeps_aborted_refl keeps_aborted_same)
next
  case (Timeout i)
  let ?s1 = "s\<lparr>timers := (timers s)[i := (timers s ! i)\<lparr>fired := True\<rparr>]\<rparr>"
  have "keeps_aborted s (start cl ?s1)" for cl
    by (rule keeps_aborted_before[OF _ keeps_aborted_start]) simp
  then show ?thesis using Timeout
    by (simp add: timeout_def Let_def keeps_aborted_refl keeps_aborted_same)
next
  case (VisibilityChange hidden)
  then show ?thesis
    by (simp add: handler_def keeps_aborted_refl keeps_aborted_abort_current keeps_aborted_start)
next
  case CallClose
  have "keeps_aborted s ((abort_current s)\<lparr>readyState := CLOSED\<rparr>)"
    using keeps_aborted_abort_current[of s] by (simp add: keeps_aborted_def)
  then show ?thesis using CallClose by (simp add: close_def)
next
  case CallReconnect
  then show ?thesis by (simp add: reconnect_def keeps_aborted_start)
next
  case (Rerender opts)
  let ?s1 = "s\<lparr>onOpenRef := onOpen opts, onMessageRef := onMessage opts,
                 onErrorRef := onError opts, onCloseRef := onClose opts,
                 visibilityListener := pauseOnHidden_of opts\<rparr>"
  let ?cl = "\<lparr>c_opts = opts, c_lastEventId = lastEventId ?s1\<rparr>"
  let ?s2 = "?s1\<lparr>startMemo := ?cl\<rparr>"
  have "keeps_aborted ?s2 (start ?cl (abort_current ?s2))"
    by (rule keeps_aborted_trans[OF keeps_aborted_abort_current keeps_aborted_start])
  then have "keeps_aborted s (start ?cl (abort_current ?s2))"
    by (simp add: keeps_aborted_def)
  then show ?thesis using Rerender
    by (simp add: rerender_def Let_def keeps_aborted_same)
next
  case Unmount
  have "keeps_aborted s ((abort_current s)\<lparr>visibilityListener := False\<rparr>)"
    using keeps_aborted_abort_current[of s] by (simp add: keeps_aborted_def)
  then show ?thesis using Unmount by (simp add: unmount_def)
qed

lemma keeps_aborted_run: "keeps_aborted s (run evs s)"
proof (induction evs arbitrary: s)
  case Nil
  show ?case by (simp add: keeps_aborted_refl)
next
  case (Cons ev evs)
  show ?case using keeps_aborted_trans[OF keeps_aborted_step Cons.IH] by simp
qed

lemma outstanding_wf:
  assumes "wf s"
  shows "outstanding s =
           (if aborted (last (attempts s)) then [] else [length (attempts s) - 1])"
proof -
  from assms have ne: "attempts s \<noteq> []" by (simp add: wf_def)
  then have n: "length (attempts s) = Suc (length (attempts s) - 1)" by simp
  have old: "filter (\<lambda>k. \<not> aborted (attempts s ! k)) [0 ..< length (attempts s) - 1] = []"
    using assms by (simp add: wf_def filter_empty_conv)
  have "outstanding s =
      filter (\<lambda>k. \<not> aborted (attempts s ! k))
        ([0 ..< length (attempts s) - 1] @ [length (attempts s) - 1])"
    unfolding outstanding_def by (subst n) simp
  then show ?thesis using old ne by (simp add: last_conv_nth)
qed

lemma outstanding_start: "wf s \<Longrightarrow> outstanding (start cl s) = [length (attempts s)]"
  using outstanding_wf[OF wf_start, of s cl] by simp

lemma outstanding_nil_iff:
  "outstanding s = [] \<longleftrightarrow> (\<forall>k < length (attempts s). aborted (attempts s ! k))"
  by (auto simp: outstanding_def filter_empty_conv)

text \<open>Every live attempt is outstanding; after \<^verbatim>\<open>start()\<close> the new attempt is the live one.\<close>

lemma active_wf:
  assumes "wf s"
  shows "active s = (if live s (length (attempts s) - 1) then [length (attempts s) - 1] else [])"
proof -
  from assms have ne: "attempts s \<noteq> []" by (simp add: wf_def)
  then have n: "length (attempts s) = Suc (length (attempts s) - 1)" by simp
  have old: "filter (live s) [0 ..< length (attempts s) - 1] = []"
    using assms by (simp add: wf_def filter_empty_conv live_def)
  have "active s = filter (live s) ([0 ..< length (attempts s) - 1] @ [length (attempts s) - 1])"
    unfolding active_def by (subst n) simp
  then show ?thesis using old by simp
qed

lemma live_start: "live (start cl s) (length (attempts s))"
  by (simp add: live_def nth_append)

lemma active_start: "wf s \<Longrightarrow> active (start cl s) = [length (attempts s)]"
  using active_wf[OF wf_start, of s cl] live_start[of cl s] by simp

section \<open>An attempt aborted before it opened stays silent\<close>

lemma silenced_step: "silenced s k \<Longrightarrow> silenced (step ev s) k"
proof (cases ev)
  case (Open j r)
  then show "silenced s k \<Longrightarrow> silenced (step ev s) k"
    by (auto simp: silenced_def live_def mark_opened_nth)
next
  case (Timeout i)
  then show "silenced s k \<Longrightarrow> silenced (step ev s) k"
    by (auto simp: silenced_def timeout_def Let_def nth_append abort_current_nth)
next
  case (Rerender opts)
  then show "silenced s k \<Longrightarrow> silenced (step ev s) k"
    by (auto simp: silenced_def rerender_def Let_def nth_append abort_current_nth)
qed (auto simp: silenced_def end_attempt_nth handler_def close_def reconnect_def unmount_def
       nth_append abort_current_nth)

lemma silenced_run: "silenced s k \<Longrightarrow> silenced (run evs s) k"
  by (induction evs arbitrary: s) (simp_all add: silenced_step)

lemma silenced_no_callback:
  assumes "silenced s k"
  shows "\<not> live s k" "\<not> streaming s k"
        "step (Open k response) s = s" "step (Message k message) s = s"
        "step (Error k err) s = s" "step (Close k) s = s"
  using assms by (simp_all add: silenced_def live_def streaming_def)

section \<open>The delay on doubles and the formula of the specification\<close>

lemma times_pow2_large: "1024 \<le> n \<Longrightarrow> times_pow2 x n = times_pow2 x 1024"
proof (cases x)
  case (Num b)
  assume n: "1024 \<le> n"
  show ?thesis
  proof (cases "b = 0")
    case True
    with Num n show ?thesis by simp
  next
    case False
    then have b: "1 \<le> \<bar>b\<bar>" by simp
    have p: "(2::int) ^ 1024 \<le> 2 ^ n" using n by (intro power_increasing) simp_all
    have "1 * (2::int) ^ 1024 \<le> \<bar>b\<bar> * 2 ^ n"
      using b p by (intro mult_mono) simp_all
    then have big: "\<not> \<bar>b\<bar> * 2 ^ n < 2 ^ 1024" by simp
    have "1 * (2::int) ^ 1024 \<le> \<bar>b\<bar> * 2 ^ 1024"
      using b by (intro mult_mono) simp_all
    then have big': "\<not> \<bar>b\<bar> * 2 ^ 1024 < 2 ^ 1024" by simp
    have "times_pow2 (Num b) n = (if 0 < b then Infinity else NegInfinity)"
      using False big by (simp del: power_strict_increasing_iff)
    moreover have "times_pow2 (Num b) 1024 = (if 0 < b then Infinity else NegInfinity)"
      using False big' by simp
    ultimately show ?thesis using Num by simp
  qed
qed simp_all

lemma retry_delay_saturated:
  "retry_delay base cap (min n (2 ^ 53)) = retry_delay base cap n"
proof (cases "n \<le> 2 ^ 53")
  case True
  then show ?thesis by (simp add: min_def)
next
  case False
  then have "1024 \<le> n" by simp
  then have "times_pow2 base n = times_pow2 base 1024" by (rule times_pow2_large)
  moreover have "times_pow2 base (2 ^ 53) = times_pow2 base 1024"
    by (rule times_pow2_large) simp
  ultimately show ?thesis using False by (simp add: retry_delay_def min_def)
qed

text \<open>
  While the product is finite the source computes the specification's formula exactly.
\<close>

lemma retry_delay_in_range:
  assumes "n < 1024" and "\<bar>b\<bar> * 2 ^ n < 2 ^ 1024"
  shows "retry_delay (Num b) (map_option Num cap) n = Num (delay_spec b cap n)"
  using assms by (cases cap) (simp_all add: retry_delay_def delay_spec_def)

text \<open>
  With a positive interval and a maximum, it does so for every count: when the product
  overflows, the minimum is the maximum.
\<close>

lemma retry_delay_capped:
  assumes "0 < b" and "c < 2 ^ 1024"
  shows "retry_delay (Num b) (Some (Num c)) n = Num (delay_spec b (Some c) n)"
proof (cases "\<bar>b\<bar> * 2 ^ n < 2 ^ 1024")
  case True
  with assms show ?thesis by (simp add: retry_delay_def delay_spec_def)
next
  case False
  then have "c < b * 2 ^ n" using assms by simp
  then have "min (b * 2 ^ n) c = c" by simp
  with False assms show ?thesis by (simp add: retry_delay_def delay_spec_def)
qed

lemma increment_min: "increment (min i (2 ^ 53)) = min (Suc i) (2 ^ 53)"
  by (simp add: increment_alt min_def)

section \<open>The delays scheduled since the last open\<close>

lemma map_t_delay_fire:
  "map t_delay (ts[i := (ts ! i)\<lparr>fired := True\<rparr>]) = map t_delay ts"
  by (rule nth_equalityI) (simp_all add: nth_modify)

lemma uniform_alt:
  "uniform base cap s =
     (policy (startMemo s) = (Some base, cap) \<and>
      (\<forall>k < length (attempts s). policy (closure (attempts s ! k)) = (Some base, cap)))"
  by (simp add: uniform_def list_all_length)

lemma uniform_nth:
  "uniform base cap s \<Longrightarrow> k < length (attempts s) \<Longrightarrow>
   retryIntervalMs (c_opts (closure (attempts s ! k))) = Some base \<and>
   maxRetryIntervalMs (c_opts (closure (attempts s ! k))) = cap"
  by (auto simp: uniform_def list_all_length policy_def)

lemma uniform_abort_current: "uniform base cap s \<Longrightarrow> uniform base cap (abort_current s)"
  by (simp add: uniform_alt abort_current_nth)

lemma uniform_end_attempt: "uniform base cap s \<Longrightarrow> uniform base cap (end_attempt k s)"
  by (simp add: uniform_alt end_attempt_nth)

lemma uniform_mark_opened: "uniform base cap s \<Longrightarrow> uniform base cap (mark_opened k s)"
  by (simp add: uniform_alt mark_opened_nth)

lemma uniform_start:
  "uniform base cap s \<Longrightarrow> policy cl = (Some base, cap) \<Longrightarrow> uniform base cap (start cl s)"
  by (auto simp: uniform_alt abort_current_nth nth_append less_Suc_eq)

lemma uniform_timeout: "uniform base cap s \<Longrightarrow> wf s \<Longrightarrow> uniform base cap (timeout i s)"
proof -
  assume u: "uniform base cap s" and w: "wf s"
  let ?s1 = "s\<lparr>timers := (timers s)[i := (timers s ! i)\<lparr>fired := True\<rparr>]\<rparr>"
  have u1: "uniform base cap ?s1" using u by (simp add: uniform_def)
  show ?thesis
  proof (cases "i < length (timers s) \<and> \<not> fired (timers s ! i)")
    case True
    then have "t_controller (timers s ! i) < length (attempts s)" using w by (simp add: wf_def)
    then have "policy (closure (attempts s ! t_controller (timers s ! i))) = (Some base, cap)"
      using uniform_nth[OF u] by (simp add: policy_def)
    then show ?thesis using True u1 by (simp add: timeout_def Let_def uniform_start)
  next
    case False
    then show ?thesis using u by (auto simp: timeout_def)
  qed
qed

lemma uniform_same:
  "attempts s' = attempts s \<Longrightarrow> startMemo s' = startMemo s \<Longrightarrow>
   uniform base cap s \<Longrightarrow> uniform base cap s'"
  by (simp add: uniform_def)

lemma uniform_step:
  assumes "uniform base cap s" "wf s" "same_policy base cap ev"
  shows "uniform base cap (step ev s)"
proof (cases ev)
  case (Open k r)
  have "uniform base cap (fst (onopen r s))" using assms(1) by (rule uniform_same[rotated 2]) simp_all
  then show ?thesis using Open assms(1) by (simp add: uniform_mark_opened)
next
  case (Message k m)
  have "uniform base cap (fst (onmessage m s))"
    using assms(1) by (rule uniform_same[rotated 2]) simp_all
  then show ?thesis using Message assms(1) by simp
next
  case (Error k e)
  have "uniform base cap (fst (onerror (closure (attempts s ! k)) k e s))"
    using assms(1) by (rule uniform_same[rotated 2]) simp_all
  then show ?thesis using Error assms(1) by (simp add: uniform_end_attempt)
next
  case (Close k)
  have "uniform base cap (fst (onclose s))" using assms(1) by (rule uniform_same[rotated 2]) simp_all
  then show ?thesis using Close assms(1) by (simp add: uniform_end_attempt)
next
  case (Timeout i)
  then show ?thesis using assms by (simp add: uniform_timeout)
next
  case (VisibilityChange hidden)
  have "policy (startMemo s) = (Some base, cap)" using assms(1) by (simp add: uniform_def)
  then show ?thesis using VisibilityChange assms(1)
    by (simp add: handler_def uniform_start uniform_abort_current)
next
  case CallClose
  have "uniform base cap ((abort_current s)\<lparr>readyState := CLOSED\<rparr>)"
    using uniform_abort_current[OF assms(1)] by (simp add: uniform_def)
  then show ?thesis using CallClose by (simp add: close_def)
next
  case CallReconnect
  have "policy (startMemo s) = (Some base, cap)" using assms(1) by (simp add: uniform_def)
  then show ?thesis using CallReconnect assms(1) by (simp add: reconnect_def uniform_start)
next
  case (Rerender opts)
  let ?s1 = "s\<lparr>onOpenRef := onOpen opts, onMessageRef := onMessage opts,
                 onErrorRef := onError opts, onCloseRef := onClose opts,
                 visibilityListener := pauseOnHidden_of opts\<rparr>"
  let ?cl = "\<lparr>c_opts = opts, c_lastEventId = lastEventId ?s1\<rparr>"
  have p: "policy ?cl = (Some base, cap)" using assms(3) Rerender by (simp add: policy_def)
  have u1: "uniform base cap ?s1" using assms(1) by (simp add: uniform_def)
  have "uniform base cap (?s1\<lparr>startMemo := ?cl\<rparr>)" using u1 p by (simp add: uniform_def)
  then have "uniform base cap (start ?cl (abort_current (?s1\<lparr>startMemo := ?cl\<rparr>)))"
    using p by (intro uniform_start uniform_abort_current)
  then show ?thesis using Rerender u1 by (simp add: rerender_def Let_def)
next
  case Unmount
  have "uniform base cap ((abort_current s)\<lparr>visibilityListener := False\<rparr>)"
    using uniform_abort_current[OF assms(1)] by (simp add: uniform_def)
  then show ?thesis using Unmount by (simp add: unmount_def)
qed

lemma since_open_same_policy: "since_open base cap ev \<Longrightarrow> same_policy base cap ev"
  by (cases ev) simp_all

lemma uniform_run:
  "uniform base cap s \<Longrightarrow> wf s \<Longrightarrow> list_all (same_policy base cap) evs \<Longrightarrow>
   uniform base cap (run evs s)"
  by (induction evs arbitrary: s) (simp_all add: uniform_step wf_step)

lemma uniform_mount:
  "retryIntervalMs opts = Some base \<Longrightarrow> maxRetryIntervalMs opts = cap \<Longrightarrow>
   uniform base cap (mount opts)"
  by (simp add: mount_def uniform_def policy_def abort_current_def)

lemma uniform_session:
  "retryIntervalMs opts = Some base \<Longrightarrow> maxRetryIntervalMs opts = cap \<Longrightarrow>
   list_all (same_policy base cap) pre \<Longrightarrow> uniform base cap (session opts pre)"
  by (simp add: session_def uniform_run uniform_mount wf_mount)

lemma t_delays_step:
  "map t_delay (timers (step ev s)) =
     (case ev of
        Error k e \<Rightarrow>
          (if live s k \<and> call_observer (onErrorRef s) e = None \<and> has_retry (attempts s ! k)
           then map t_delay (timers s) @
                  [retry_delay (the (retryIntervalMs (c_opts (closure (attempts s ! k)))))
                     (maxRetryIntervalMs (c_opts (closure (attempts s ! k)))) (retryCountRef s)]
           else map t_delay (timers s))
      | _ \<Rightarrow> map t_delay (timers s))"
  by (cases ev)
     (auto simp: onerror_retry timeout_def handler_def close_def reconnect_def rerender_def
        unmount_def has_retry_def map_t_delay_fire Let_def)

lemma failures_Cons: "failures (ev # evs) s = failures [ev] s + failures evs (step ev s)"
  by (cases ev) (simp_all del: step_Error)

lemma failures_le: "failures [ev] s \<le> 1"
  by (cases ev) (simp_all del: step_Error)

lemma failure_step:
  assumes "uniform base cap s" "since_open base cap ev" "retryCountRef s = min i (2 ^ 53)"
  shows "retryCountRef (step ev s) = min (i + failures [ev] s) (2 ^ 53) \<and>
         map t_delay (timers (step ev s)) =
           map t_delay (timers s) @
             map (retry_delay base cap) [i ..< i + failures [ev] s]"
proof (cases ev)
  case (Error k e)
  show ?thesis
  proof (cases "live s k \<and> call_observer (onErrorRef s) e = None")
    case True
    then have "k < length (attempts s)" by (simp add: live_def)
    from uniform_nth[OF assms(1) this] True Error assms(3) show ?thesis
      unfolding retryCountRef_step t_delays_step
      using increment_min[of i] retry_delay_saturated[of base cap i]
      by (simp add: has_retry_def del: step_Error)
  next
    case False
    with Error assms(3) show ?thesis unfolding retryCountRef_step t_delays_step
      by (auto simp del: step_Error)
  qed
qed (use assms in \<open>simp_all add: retryCountRef_step t_delays_step del: step.simps step_Close\<close>)

lemma failure_run:
  assumes "uniform base cap s" "wf s" "list_all (since_open base cap) evs"
    "retryCountRef s = min i (2 ^ 53)"
  shows "retryCountRef (run evs s) = min (i + failures evs s) (2 ^ 53) \<and>
         map t_delay (timers (run evs s)) =
           map t_delay (timers s) @
             map (retry_delay base cap) [i ..< i + failures evs s]"
  using assms
proof (induction evs arbitrary: s i)
  case Nil
  then show ?case by simp
next
  case (Cons ev evs)
  let ?s1 = "step ev s"
  let ?f = "failures [ev] s"
  have ev: "since_open base cap ev" and evs: "list_all (since_open base cap) evs"
    using Cons.prems(3) by simp_all
  have u1: "uniform base cap ?s1"
    using uniform_step[OF Cons.prems(1,2) since_open_same_policy[OF ev]] .
  have w1: "wf ?s1" using Cons.prems(2) by (rule wf_step)
  note st = failure_step[OF Cons.prems(1) ev Cons.prems(4)]
  note ih = Cons.IH[OF u1 w1 evs st[THEN conjunct1]]
  have split: "[i ..< i + (?f + failures evs ?s1)] =
      [i ..< i + ?f] @ [i + ?f ..< i + ?f + failures evs ?s1]"
    by (metis add.assoc upt_add_eq_append le_add1)
  show ?case
    using st ih unfolding failures_Cons[of ev evs s] split by (simp add: add.assoc)
qed

section \<open>The counts at which the doubles give the formula\<close>

lemma in_range_mono: "in_range b c n \<Longrightarrow> i \<le> n \<Longrightarrow> in_range b c i"
proof -
  assume r: "in_range b c n" and le: "i \<le> n"
  have p: "(2::int) ^ i \<le> 2 ^ n" using le by (intro power_increasing) simp_all
  have m: "\<bar>b\<bar> * 2 ^ i \<le> \<bar>b\<bar> * 2 ^ n" using p by (intro mult_left_mono) simp_all
  show ?thesis using r le m unfolding in_range_def by (auto simp del: power_increasing_iff)
qed

lemma retry_delay_exact:
  assumes "in_range b c n"
  shows "retry_delay (Num b) (map_option Num c) n = Num (delay_spec b c n)"
proof (cases "n < 1024 \<and> \<bar>b\<bar> * 2 ^ n < 2 ^ 1024")
  case True
  then show ?thesis by (simp add: retry_delay_in_range)
next
  case False
  with assms obtain m where c: "c = Some m" and b: "0 < b" and m: "m < 2 ^ 1024"
    unfolding in_range_def by (cases c) auto
  show ?thesis unfolding c using retry_delay_capped[OF b m, of n] by simp
qed

lemma retry_delay_exact_upto:
  assumes "list_all (in_range b c) [0 ..< n]"
  shows "map (retry_delay (Num b) (map_option Num c)) [0 ..< n] =
         map (\<lambda>i. Num (delay_spec b c i)) [0 ..< n]"
  using assms by (auto simp: list_all_iff retry_delay_exact)

section \<open>The messages of a run\<close>

lemma delivered_Cons:
  "delivered (ev # evs) s = delivered [ev] s @ delivered evs (step ev s)"
  by (cases ev) simp_all

lemma delivered_step:
  "events (step ev s) = events s @ delivered [ev] s \<and>
   lastEventId (step ev s) =
     (if delivered [ev] s = [] then lastEventId s
      else (case msg_id (last (delivered [ev] s)) of None \<Rightarrow> [] | Some i \<Rightarrow> i))"
  unfolding events_step lastEventId_step by (cases ev) simp_all

lemma delivered_run:
  "events (run evs s) = events s @ delivered evs s \<and>
   lastEventId (run evs s) =
     (if delivered evs s = [] then lastEventId s
      else (case msg_id (last (delivered evs s)) of None \<Rightarrow> [] | Some i \<Rightarrow> i))"
proof (induction evs arbitrary: s)
  case Nil
  then show ?case by simp
next
  case (Cons ev evs)
  note st = delivered_step[of ev s]
  note ih = Cons.IH[of "step ev s"]
  show ?case unfolding delivered_Cons[of ev evs s] using st ih by simp
qed

section \<open>An error without a retry policy ends in a quiet state\<close>

lemma quiet_terminal_error:
  assumes "wf s" "live s k" "retryIntervalMs (c_opts (closure (attempts s ! k))) = None"
  shows "quiet (step (Error k err) s)"
proof -
  let ?cl = "closure (attempts s ! k)"
  let ?t = "step (Error k err) s"
  have thrown: "snd (onerror ?cl k err s) \<noteq> None"
    using assms(3) by (simp add: onerror_thrown split: option.split)
  have eq: "?t = end_attempt k (fst (onerror ?cl k err s))"
    using assms(2) thrown by auto
  have tm0: "timers (fst (onerror ?cl k err s)) = timers s"
    using assms(3) by (simp add: onerror_retry)
  have k: "k < length (attempts s)" "\<not> aborted (attempts s ! k)"
    using assms(2) by (simp_all add: live_def)
  then have cur: "controllerRef s = Some k" using wf_aborted_or_last[OF assms(1), of k] by simp
  have others: "j < length (attempts s) \<Longrightarrow> j \<noteq> k \<Longrightarrow> aborted (attempts s ! j)" for j
    using wf_aborted_or_last[OF assms(1), of j] cur by simp
  have tm: "i < length (timers s) \<Longrightarrow>
      t_controller (timers s ! i) < length (attempts s) \<and>
      aborted (attempts s ! t_controller (timers s ! i))" for i
  proof -
    assume "i < length (timers s)"
    then have r: "t_controller (timers s ! i) < length (attempts s)"
      "has_retry (attempts s ! t_controller (timers s ! i))"
      using assms(1) by (simp_all add: wf_def)
    then have "t_controller (timers s ! i) \<noteq> k" using assms(3) by (auto simp: has_retry_def)
    with r others show ?thesis by simp
  qed
  show ?thesis unfolding eq using others tm k
    by (auto simp: quiet_def end_attempt_nth tm0)
qed

lemma quiet_active: "quiet s \<Longrightarrow> active s = []"
  by (auto simp: active_def filter_empty_conv quiet_not_live)

section \<open>While no dependency changes, start is the one of the first render\<close>

lemma stale_alt:
  "stale opts s =
     (startMemo s = first_closure opts \<and>
      (\<forall>k < length (attempts s).
         closure (attempts s ! k) = first_closure opts \<and>
         request (attempts s ! k) = build_request (first_closure opts)))"
  by (simp add: stale_def list_all_length)

lemma stale_same:
  "attempts s' = attempts s \<Longrightarrow> startMemo s' = startMemo s \<Longrightarrow> stale opts s \<Longrightarrow> stale opts s'"
  by (simp add: stale_def)

lemma stale_abort_current: "stale opts s \<Longrightarrow> stale opts (abort_current s)"
  by (simp add: stale_alt abort_current_nth)

lemma stale_end_attempt: "stale opts s \<Longrightarrow> stale opts (end_attempt k s)"
  by (simp add: stale_alt end_attempt_nth)

lemma stale_mark_opened: "stale opts s \<Longrightarrow> stale opts (mark_opened k s)"
  by (simp add: stale_alt mark_opened_nth)

lemma stale_start: "stale opts s \<Longrightarrow> stale opts (start (first_closure opts) s)"
  by (auto simp: stale_alt abort_current_nth nth_append less_Suc_eq)

lemma stale_timeout: "stale opts s \<Longrightarrow> wf s \<Longrightarrow> stale opts (timeout i s)"
proof -
  assume st: "stale opts s" and w: "wf s"
  let ?s1 = "s\<lparr>timers := (timers s)[i := (timers s ! i)\<lparr>fired := True\<rparr>]\<rparr>"
  have st1: "stale opts ?s1" using st by (simp add: stale_def)
  show ?thesis
  proof (cases "i < length (timers s) \<and> \<not> fired (timers s ! i)")
    case True
    then have "t_controller (timers s ! i) < length (attempts s)" using w by (simp add: wf_def)
    then have "closure (attempts s ! t_controller (timers s ! i)) = first_closure opts"
      using st by (simp add: stale_alt)
    then show ?thesis using True stale_start[OF st1] st1 by (simp add: timeout_def Let_def)
  next
    case False
    then show ?thesis using st by (auto simp: timeout_def)
  qed
qed

lemma stale_step:
  assumes "stale opts s" "wf s" "keeps_deps opts ev"
  shows "stale opts (step ev s)"
proof (cases ev)
  case (Open k r)
  have "stale opts (fst (onopen r s))" using assms(1) by (rule stale_same[rotated 2]) simp_all
  then show ?thesis using Open assms(1) by (simp add: stale_mark_opened)
next
  case (Message k m)
  have "stale opts (fst (onmessage m s))" using assms(1) by (rule stale_same[rotated 2]) simp_all
  then show ?thesis using Message assms(1) by simp
next
  case (Error k e)
  have "stale opts (fst (onerror (closure (attempts s ! k)) k e s))"
    using assms(1) by (rule stale_same[rotated 2]) simp_all
  then show ?thesis using Error assms(1) by (simp add: stale_end_attempt)
next
  case (Close k)
  have "stale opts (fst (onclose s))" using assms(1) by (rule stale_same[rotated 2]) simp_all
  then show ?thesis using Close assms(1) by (simp add: stale_end_attempt)
next
  case (Timeout i)
  then show ?thesis using assms by (simp add: stale_timeout)
next
  case (VisibilityChange hidden)
  have "startMemo s = first_closure opts" using assms(1) by (simp add: stale_def)
  then show ?thesis using VisibilityChange assms(1) stale_start[OF assms(1)]
    by (simp add: handler_def stale_abort_current)
next
  case CallClose
  have "stale opts ((abort_current s)\<lparr>readyState := CLOSED\<rparr>)"
    using stale_abort_current[OF assms(1)] by (simp add: stale_def)
  then show ?thesis using CallClose by (simp add: close_def)
next
  case CallReconnect
  have "startMemo s = first_closure opts" using assms(1) by (simp add: stale_def)
  then show ?thesis using CallReconnect stale_start[OF assms(1)] by (simp add: reconnect_def)
next
  case (Rerender opts')
  have m: "c_opts (startMemo s) = opts" using assms(1) by (simp add: stale_def first_closure_def)
  have "stale opts (s\<lparr>onOpenRef := onOpen opts', onMessageRef := onMessage opts',
                 onErrorRef := onError opts', onCloseRef := onClose opts',
                 visibilityListener := pauseOnHidden_of opts'\<rparr>)"
    using assms(1) by (simp add: stale_def)
  then show ?thesis using Rerender assms(3) m by (simp add: rerender_def Let_def)
next
  case Unmount
  have "stale opts ((abort_current s)\<lparr>visibilityListener := False\<rparr>)"
    using stale_abort_current[OF assms(1)] by (simp add: stale_def)
  then show ?thesis using Unmount by (simp add: unmount_def)
qed

lemma stale_run:
  "stale opts s \<Longrightarrow> wf s \<Longrightarrow> list_all (keeps_deps opts) evs \<Longrightarrow> stale opts (run evs s)"
  by (induction evs arbitrary: s) (simp_all add: stale_step wf_step)

lemma stale_mount: "stale opts (mount opts)"
  by (simp add: mount_def stale_def first_closure_def abort_current_def)

lemma stale_session: "list_all (keeps_deps opts) evs \<Longrightarrow> stale opts (session opts evs)"
  by (simp add: session_def stale_run stale_mount wf_mount)

text \<open>
  As long as no render changes a dependency of \<^verbatim>\<open>start\<close>, no request carries a
  \<^verbatim>\<open>Last-Event-ID\<close> header that comes from \<^verbatim>\<open>lastEventId\<close>, whatever messages arrived.
\<close>

lemma last_event_id_never_sent:
  assumes "list_all (keeps_deps opts) evs" and "k < length (attempts (session opts evs))"
  shows "req_headers (request (attempts (session opts evs) ! k)) ''Last-Event-ID'' =
           (case init opts of None \<Rightarrow> None | Some i \<Rightarrow> init_headers i ''Last-Event-ID'')"
  using stale_session[OF assms(1)] assms(2)
  by (simp add: stale_alt build_request_def first_closure_def Let_def split: option.split)

section \<open>The visibility handler\<close>

lemma visibility_handler_effects:
  "readyState (handler True s) = readyState s"
  "observed (handler True s) = observed s"
  "retryCountRef (handler True s) = retryCountRef s"
  "error (handler True s) = error s"
  "readyState (handler False s) = CONNECTING"
  "observed (handler False s) = observed s"
  "retryCountRef (handler False s) = retryCountRef s"
  "controllerRef (handler False s) = Some (length (attempts s))"
  by (simp_all add: handler_def)

lemma hidden_aborts_every_controller: "wf s \<Longrightarrow> outstanding (handler True s) = []"
  using wf_aborted_or_last[of s]
  by (auto simp: handler_def outstanding_def abort_current_nth filter_empty_conv)

text \<open>
  When the page becomes visible, \<^verbatim>\<open>start()\<close> aborts the controller that a pending retry
  timer tests: the timer will start nothing.
\<close>

lemma visible_disarms_pending_timers:
  assumes "wf s" and "i < length (timers s)"
  shows "aborted (attempts (handler False s) ! t_controller (timers s ! i))"
proof -
  from assms have r: "t_controller (timers s ! i) < length (attempts s)"
    by (simp add: wf_def)
  with wf_aborted_or_last[OF assms(1) r] show ?thesis
    by (auto simp: handler_def nth_append abort_current_nth)
qed

section \<open>Failed attempts in a row\<close>

lemma same_policy_cycles: "list_all (same_policy base cap) (cycles n)"
  by (induction n) simp_all

lemmas eval_defs = session_def mount_def opts_plain_def opts_retry_def opts_uncapped_def
  opts_plain_throwing_def opts_retry_throwing_def msg_with_id_def msg_empty_id_def
  live_def streaming_def onopen_def onmessage_def onerror_def onclose_def call_observer_def
  mark_opened_def end_attempt_def timeout_def handler_def close_def reconnect_def
  pauseOnHidden_of_def withCredentials_of_def abort_current_def start_def build_request_def
  Let_def

lemma cycles_state:
  assumes "n < 2 ^ 53"
  shows "length (attempts (session opts_uncapped (Open 0 200 # cycles n))) = Suc n \<and>
         live (session opts_uncapped (Open 0 200 # cycles n)) n \<and>
         length (timers (session opts_uncapped (Open 0 200 # cycles n))) = n \<and>
         retryCountRef (session opts_uncapped (Open 0 200 # cycles n)) = n \<and>
         onErrorRef (session opts_uncapped (Open 0 200 # cycles n)) = onError opts_uncapped"
  using assms
proof (induction n)
  case 0
  show ?case by (simp add: eval_defs)
next
  case (Suc n)
  let ?s = "session opts_uncapped (Open 0 200 # cycles n)"
  let ?cl = "closure (attempts ?s ! n)"
  let ?e = "step (Error n ''boom'') ?s"
  from Suc have ih: "length (attempts ?s) = Suc n" "live ?s n" "length (timers ?s) = n"
    "retryCountRef ?s = n" "onErrorRef ?s = onError opts_uncapped" and n: "n < 2 ^ 53"
    by simp_all
  have u: "uniform (Num 1000) None ?s"
    by (rule uniform_session) (simp_all add: opts_uncapped_def opts_plain_def same_policy_cycles)
  have pol: "retryIntervalMs (c_opts ?cl) = Some (Num 1000)"
    using uniform_nth[OF u, of n] ih(1) by simp
  have ob: "call_observer (onErrorRef ?s) ''boom'' = None"
    unfolding ih(5) by (simp add: opts_uncapped_def opts_plain_def call_observer_def)
  have ret: "snd (onerror ?cl n ''boom'' ?s) = None"
    using ob pol by (simp add: onerror_thrown)
  have e: "?e = fst (onerror ?cl n ''boom'' ?s)" using ih(2) ret by simp
  have ea: "attempts ?e = attempts ?s" unfolding e by simp
  have et: "timers ?e = timers ?s @
      [\<lparr>t_controller = n, t_delay = retry_delay (Num 1000) (maxRetryIntervalMs (c_opts ?cl)) n,
        fired = False\<rparr>]"
    unfolding e using ob pol ih(4) by (simp add: onerror_retry)
  have ec: "retryCountRef ?e = Suc n"
    unfolding e using ob pol ih(4) n by (simp add: onerror_retry increment_alt)
  have eo: "onErrorRef ?e = onError opts_uncapped" unfolding e using ih(5) by simp
  have tn: "timers ?e ! n = \<lparr>t_controller = n,
      t_delay = retry_delay (Num 1000) (maxRetryIntervalMs (c_opts ?cl)) n, fired = False\<rparr>"
    unfolding et using ih(3) by (simp add: nth_append)
  have na: "\<not> aborted (attempts ?s ! n)" using ih(2) by (simp add: live_def)
  let ?f = "?e\<lparr>timers := (timers ?e)[n := (timers ?e ! n)\<lparr>fired := True\<rparr>]\<rparr>"
  have t: "step (Timeout n) ?e = start ?cl ?f"
    using tn na ea et ih(3) by (simp add: timeout_def Let_def del: step_Error)
  have sess: "session opts_uncapped (Open 0 200 # cycles (Suc n)) = step (Timeout n) ?e"
    by (simp add: session_def run_append del: step_Error)
  have fa: "length (attempts ?f) = Suc n" using ea ih(1) by simp
  have "length (attempts (start ?cl ?f)) = Suc (Suc n)" using fa by simp
  moreover have "live (start ?cl ?f) (Suc n)" using live_start[of ?cl ?f] fa by simp
  moreover have "length (timers (start ?cl ?f)) = Suc n" using et ih(3) by simp
  moreover have "retryCountRef (start ?cl ?f) = Suc n" using ec by simp
  moreover have "onErrorRef (start ?cl ?f) = onError opts_uncapped" using eo by simp
  ultimately show ?case unfolding sess t by simp
qed

section \<open>One error event under a fixed retry policy\<close>

lemma error_step_timer:
  assumes "uniform base cap s" "live s k" "call_observer (onErrorRef s) err = None"
  shows "timers (step (Error k err) s) =
           timers s @ [\<lparr>t_controller = k, t_delay = retry_delay base cap (retryCountRef s),
                        fired = False\<rparr>] \<and>
         retryCountRef (step (Error k err) s) = increment (retryCountRef s)"
proof -
  from assms(2) have "k < length (attempts s)" by (simp add: live_def)
  from uniform_nth[OF assms(1) this] assms(2,3) show ?thesis
    by (simp add: onerror_retry onerror_thrown)
qed

lemma error_step_thrown:
  assumes "call_observer (onErrorRef s) err \<noteq> None"
  shows "timers (step (Error k err) s) = timers s \<and>
         retryCountRef (step (Error k err) s) = retryCountRef s \<and>
         readyState (step (Error k err) s) = readyState s"
  using assms by (auto simp: onerror_retry onerror_readyState)

section \<open>The claims\<close>

text \<open>
  C1, as the specification states it: a message with an absent or empty identifier leaves
  \<^verbatim>\<open>lastEventId\<close> as it was. The handler assigns \<^verbatim>\<open>message.id ?? ""\<close>: after a message
  with the identifier 42, a message with the empty identifier sets \<^verbatim>\<open>lastEventId\<close>
  back to the empty string.
\<close>

theorem lastEventId_reset_by_message_with_empty_id:
  "msg_id msg_empty_id = Some [] \<and>
   streaming (session opts_plain [Open 0 200, Message 0 msg_with_id] :: (string, nat) hook) 0 \<and>
   lastEventId (session opts_plain [Open 0 200, Message 0 msg_with_id]
      :: (string, nat) hook) = ''42'' \<and>
   lastEventId (session opts_plain [Open 0 200, Message 0 msg_with_id, Message 0 msg_empty_id]
      :: (string, nat) hook) = []"
proof -
  have a: "msg_id msg_empty_id = Some []" by (simp add: msg_empty_id_def)
  have b: "streaming (session opts_plain [Open 0 200, Message 0 msg_with_id]
      :: (string, nat) hook) 0" by code_simp
  have c: "lastEventId (session opts_plain [Open 0 200, Message 0 msg_with_id]
      :: (string, nat) hook) = ''42''" by code_simp
  have d: "lastEventId (session opts_plain
      [Open 0 200, Message 0 msg_with_id, Message 0 msg_empty_id] :: (string, nat) hook) = []"
    by code_simp
  show ?thesis by (intro conjI) (rule a b c d)+
qed

text \<open>
  C1, amended: \<^verbatim>\<open>lastEventId\<close> changes only when the message callback receives a
  message, and then it becomes the identifier of that message, also when that identifier
  is empty (and the empty string when it is absent). So after any events, from any state,
  the received messages are those before followed by the messages delivered since, in
  order, and \<^verbatim>\<open>lastEventId\<close> is as before when none was delivered and the identifier of
  the last one delivered otherwise. No other event changes it: not an open, an error, a
  close, a timer, a visibility change, \<^verbatim>\<open>close()\<close>, \<^verbatim>\<open>reconnect()\<close>, a render or the
  unmount.
\<close>

theorem lastEventId_is_id_of_last_delivered_message:
  "events (run evs s) = events s @ delivered evs s \<and>
   lastEventId (run evs s) =
     (if delivered evs s = [] then lastEventId s
      else (case msg_id (last (delivered evs s)) of None \<Rightarrow> [] | Some i \<Rightarrow> i)) \<and>
   lastEventId (step ev s) =
     (case ev of
        Message k message \<Rightarrow>
          if streaming s k then (case msg_id message of None \<Rightarrow> [] | Some i \<Rightarrow> i)
          else lastEventId s
      | _ \<Rightarrow> lastEventId s)"
  using delivered_run[of evs s] lastEventId_step[of ev s] by simp

text \<open>
  C2, as the specification states it: after the n-th error the delay min(base * 2^n, cap)
  is scheduled and the count incremented. Two inputs on which it is not so. With an error
  observer that throws, the callback ends at the observer's call: after the first error
  of an open session with 1000 ms and 30000 ms no timer is scheduled and the count is
  still 0. Without a maximum, after 1024 failed attempts in a row the count is 1024 and
  the next error schedules the delay \<^verbatim>\<open>Infinity\<close>, since \<^verbatim>\<open>2 ** 1024\<close> is \<^verbatim>\<open>Infinity\<close>,
  not the number 1000 * 2^1024.
\<close>

theorem backoff_delay_missing_or_infinite:
  "live (session opts_retry_throwing [Open 0 200] :: (string, nat) hook) 0 \<and>
   timers (session opts_retry_throwing [Open 0 200, Error 0 ''boom'']
      :: (string, nat) hook) = [] \<and>
   retryCountRef (session opts_retry_throwing [Open 0 200, Error 0 ''boom'']
      :: (string, nat) hook) = 0 \<and>
   live (session opts_uncapped (Open 0 200 # cycles 1024)) 1024 \<and>
   retryCountRef (session opts_uncapped (Open 0 200 # cycles 1024)) = 1024 \<and>
   timers (session opts_uncapped (Open 0 200 # cycles 1024 @ [Error 1024 ''boom''])) =
     timers (session opts_uncapped (Open 0 200 # cycles 1024)) @
       [\<lparr>t_controller = 1024, t_delay = Infinity, fired = False\<rparr>] \<and>
   delay_spec 1000 None 1024 = 1000 * 2 ^ 1024"
proof -
  let ?s = "session opts_uncapped (Open 0 200 # cycles 1024)"
  have a: "live (session opts_retry_throwing [Open 0 200] :: (string, nat) hook) 0"
    by code_simp
  have b: "timers (session opts_retry_throwing [Open 0 200, Error 0 ''boom'']
      :: (string, nat) hook) = []" by code_simp
  have c: "retryCountRef (session opts_retry_throwing [Open 0 200, Error 0 ''boom'']
      :: (string, nat) hook) = 0" by code_simp
  have st: "live ?s 1024" "retryCountRef ?s = 1024" "onErrorRef ?s = onError opts_uncapped"
    using cycles_state[of 1024] by simp_all
  have u: "uniform (Num 1000) None ?s"
    by (rule uniform_session) (simp_all add: opts_uncapped_def opts_plain_def same_policy_cycles)
  have ob: "call_observer (onErrorRef ?s) ''boom'' = None"
    unfolding st(3) by (simp add: opts_uncapped_def opts_plain_def call_observer_def)
  have inf: "retry_delay (Num 1000) None 1024 = Infinity" by (simp add: retry_delay_def)
  have app: "session opts_uncapped (Open 0 200 # cycles 1024 @ [Error 1024 ''boom'']) =
      step (Error 1024 ''boom'') ?s"
    using session_append[of opts_uncapped "Open 0 200 # cycles 1024" "[Error 1024 ''boom'']"]
    by (simp del: step_Error)
  have d: "timers (session opts_uncapped (Open 0 200 # cycles 1024 @ [Error 1024 ''boom''])) =
      timers ?s @ [\<lparr>t_controller = 1024, t_delay = Infinity, fired = False\<rparr>]"
    unfolding app using error_step_timer[OF u st(1) ob, THEN conjunct1] st(2) inf
    by (simp del: step_Error)
  have e: "delay_spec 1000 None 1024 = 1000 * 2 ^ 1024" by (simp add: delay_spec_def)
  show ?thesis by (intro conjI) (rule a b c st(1) st(2) d e)+
qed

text \<open>
  C2, amended. Let the options have the retry interval \<open>base\<close> and the maximum \<open>cap\<close>
  (possibly absent), and let them stay so across renders. After an open callback of a
  live attempt the retry count is 0. From there on, through any events but another open
  (errors, the retry timers and the attempts they start, messages, \<^verbatim>\<open>close()\<close>,
  \<^verbatim>\<open>reconnect()\<close>, visibility changes), let \<open>n\<close> be the number of errors delivered since
  whose error observer returned (or was absent). Then the retry count is \<open>n\<close> (it stops
  at \<open>2 ^ 53\<close>), and the delays given to \<^verbatim>\<open>setTimeout\<close> since then are, in this order,
  the values of \<^verbatim>\<open>Math.min(base * 2 ** i, cap ?? Infinity)\<close> for i = 0, ..., n - 1. These
  are min(base * 2^i, cap) as long as the product is below \<open>2 ^ 1024\<close> and i below 1024,
  and for every i when the interval is positive and there is a maximum. The next error
  whose observer returns schedules a timer with the delay for the current count, for its
  own controller, and then increments the count; an error whose observer throws schedules
  nothing and leaves the count as it is. The same holds from the first render, where the
  count is 0 as well.
\<close>

theorem backoff_delays:
  assumes "retryIntervalMs opts = Some base" and "maxRetryIntervalMs opts = cap"
    and "list_all (same_policy base cap) pre"
    and "live (session opts pre) k"
    and "list_all (since_open base cap) evs"
  shows "retryCountRef (session opts (pre @ [Open k response])) = 0 \<and>
         retryCountRef (session opts (pre @ Open k response # evs)) =
           min (failures evs (session opts (pre @ [Open k response]))) (2 ^ 53) \<and>
         map t_delay (timers (session opts (pre @ Open k response # evs))) =
           map t_delay (timers (session opts pre)) @
             map (retry_delay base cap)
               [0 ..< failures evs (session opts (pre @ [Open k response]))] \<and>
         (base = Num b \<and> cap = map_option Num c \<and>
          list_all (in_range b c)
            [0 ..< failures evs (session opts (pre @ [Open k response]))] \<longrightarrow>
            map t_delay (timers (session opts (pre @ Open k response # evs))) =
              map t_delay (timers (session opts pre)) @
                map (\<lambda>i. Num (delay_spec b c i))
                  [0 ..< failures evs (session opts (pre @ [Open k response]))]) \<and>
         (live (session opts (pre @ Open k response # evs)) k' \<longrightarrow>
            timers (step (Error k' err) (session opts (pre @ Open k response # evs))) =
              (if call_observer (onErrorRef (session opts (pre @ Open k response # evs))) err
                    = None
               then timers (session opts (pre @ Open k response # evs)) @
                      [\<lparr>t_controller = k',
                        t_delay = retry_delay base cap
                          (retryCountRef (session opts (pre @ Open k response # evs))),
                        fired = False\<rparr>]
               else timers (session opts (pre @ Open k response # evs))) \<and>
            retryCountRef (step (Error k' err) (session opts (pre @ Open k response # evs))) =
              (if call_observer (onErrorRef (session opts (pre @ Open k response # evs))) err
                    = None
               then increment (retryCountRef (session opts (pre @ Open k response # evs)))
               else retryCountRef (session opts (pre @ Open k response # evs)))) \<and>
         retryCountRef (session opts evs) = min (failures evs (session opts [])) (2 ^ 53) \<and>
         map t_delay (timers (session opts evs)) =
           map (retry_delay base cap) [0 ..< failures evs (session opts [])]"
proof -
  let ?before = "session opts pre"
  let ?opened = "session opts (pre @ [Open k response])"
  let ?final = "session opts (pre @ Open k response # evs)"
  let ?n = "failures evs ?opened"
  have o: "?opened = mark_opened k (fst (onopen response ?before))"
    using assms(4) by (simp add: session_append)
  have f: "?final = run evs ?opened" by (simp add: session_def run_append)
  have u: "uniform base cap ?before" using assms(1-3) by (rule uniform_session)
  have w: "wf ?before" by (rule wf_session)
  have uo: "uniform base cap ?opened"
    using uniform_step[OF u w, of "Open k response"] by (simp add: session_append)
  have wo: "wf ?opened" by (rule wf_session)
  have c0: "retryCountRef ?opened = 0" unfolding o by simp
  have t0: "timers ?opened = timers ?before" unfolding o by simp
  have c0': "retryCountRef ?opened = min 0 (2 ^ 53)" using c0 by simp
  note fr = failure_run[OF uo wo assms(5) c0', folded f, unfolded t0]
  have cnt: "retryCountRef ?final = min ?n (2 ^ 53)" using fr[THEN conjunct1] by simp
  have del: "map t_delay (timers ?final) =
      map t_delay (timers ?before) @ map (retry_delay base cap) [0 ..< ?n]"
    using fr[THEN conjunct2] by simp
  have same: "list_all (same_policy base cap) evs"
    using assms(5) since_open_same_policy[of base cap] by (auto simp: list_all_iff)
  have uf: "uniform base cap ?final" unfolding f using uo wo same by (rule uniform_run)
  have spec: "base = Num b \<and> cap = map_option Num c \<and>
      list_all (in_range b c) [0 ..< ?n] \<longrightarrow>
      map t_delay (timers ?final) =
        map t_delay (timers ?before) @ map (\<lambda>i. Num (delay_spec b c i)) [0 ..< ?n]"
    using del retry_delay_exact_upto[where n = ?n and b = b and c = c] by auto
  have nxt: "live ?final k' \<longrightarrow>
      timers (step (Error k' err) ?final) =
        (if call_observer (onErrorRef ?final) err = None
         then timers ?final @ [\<lparr>t_controller = k',
                t_delay = retry_delay base cap (retryCountRef ?final), fired = False\<rparr>]
         else timers ?final) \<and>
      retryCountRef (step (Error k' err) ?final) =
        (if call_observer (onErrorRef ?final) err = None
         then increment (retryCountRef ?final) else retryCountRef ?final)"
  proof (cases "call_observer (onErrorRef ?final) err = None")
    case True
    then show ?thesis using error_step_timer[OF uf _ True, of k'] by (auto simp del: step_Error)
  next
    case False
    note e = error_step_thrown[OF False, of k']
    show ?thesis unfolding if_not_P[OF False] using e by blast
  qed
  have m0: "retryCountRef (mount opts :: ('a, 'b) hook) = min 0 (2 ^ 53)"
    and mt: "timers (mount opts :: ('a, 'b) hook) = []"
    by (simp_all add: mount_def)
  note fr0 = failure_run[OF uniform_mount[OF assms(1,2)] wf_mount assms(5) m0, unfolded mt]
  have first: "session opts [] = mount opts" "session opts evs = run evs (mount opts)"
    by (simp_all add: session_def)
  have fresh1: "retryCountRef (session opts evs) = min (failures evs (session opts [])) (2 ^ 53)"
    unfolding first using fr0[THEN conjunct1] by simp
  have fresh2: "map t_delay (timers (session opts evs)) =
      map (retry_delay base cap) [0 ..< failures evs (session opts [])]"
    unfolding first using fr0[THEN conjunct2] by simp
  show ?thesis by (intro conjI) (rule c0 cnt del spec nxt fresh1 fresh2)+
qed

text \<open>
  C2 at the specification's example: with 1000 ms and 30000 ms, seven failed attempts in a
  row, each retried by its timer, schedule 1000, 2000, 4000, 8000, 16000, 30000, 30000.
\<close>

theorem backoff_delays_witness:
  "retryIntervalMs opts_retry = Some (Num 1000) \<and>
   maxRetryIntervalMs opts_retry = Some (Num 30000) \<and>
   list_all (same_policy (Num 1000) (Some (Num 30000))) ([] :: (string, nat) event list) \<and>
   live (session opts_retry [] :: (string, nat) hook) 0 \<and>
   list_all (since_open (Num 1000) (Some (Num 30000))) seven_failures \<and>
   list_all (in_range 1000 (Some 30000)) [0 ..< 7] \<and>
   failures seven_failures (session opts_retry [Open 0 200]) = 7 \<and>
   retryCountRef (session opts_retry (Open 0 200 # seven_failures)) = 7 \<and>
   map t_delay (timers (session opts_retry (Open 0 200 # seven_failures))) =
     [Num 1000, Num 2000, Num 4000, Num 8000, Num 16000, Num 30000, Num 30000] \<and>
   live (session opts_retry (Open 0 200 # seven_failures)) 6 \<and>
   call_observer (onErrorRef (session opts_retry (Open 0 200 # seven_failures))) ''boom''
     = None \<and>
   map t_delay (timers (step (Error 6 ''boom'')
       (session opts_retry (Open 0 200 # seven_failures)))) =
     [Num 1000, Num 2000, Num 4000, Num 8000, Num 16000, Num 30000, Num 30000, Num 30000] \<and>
   retryCountRef (step (Error 6 ''boom'')
       (session opts_retry (Open 0 200 # seven_failures))) = 8"
proof -
  let ?final = "session opts_retry (Open 0 200 # seven_failures)"
  have h1: "retryIntervalMs opts_retry = Some (Num 1000)"
    and h2: "maxRetryIntervalMs opts_retry = Some (Num 30000)"
    by (simp_all add: opts_retry_def)
  have h3: "list_all (same_policy (Num 1000) (Some (Num 30000)))
      ([] :: (string, nat) event list)"
    by simp
  have h4: "live (session opts_retry [] :: (string, nat) hook) 0"
    by code_simp
  have h5: "list_all (since_open (Num 1000) (Some (Num 30000))) seven_failures"
    by (simp add: seven_failures_def)
  have h6: "list_all (in_range 1000 (Some 30000)) [0 ..< 7]"
    by (simp add: in_range_def list_all_iff)
  have h7: "live ?final 6" by code_simp
  have h8: "call_observer (onErrorRef ?final) ''boom'' = None" by code_simp
  have n: "failures seven_failures (session opts_retry [Open 0 200]) = 7"
    by code_simp
  have t0: "timers (session opts_retry [] :: (string, nat) hook) = []"
    by code_simp
  have d: "map (\<lambda>i. Num (delay_spec 1000 (Some 30000) i)) [0 ..< 7] =
      [Num 1000, Num 2000, Num 4000, Num 8000, Num 16000, Num 30000, Num 30000]"
    by code_simp
  have d7: "retry_delay (Num 1000) (Some (Num 30000)) 7 = Num 30000"
    by (simp add: retry_delay_def)
  have i8: "increment 7 = 8" by (simp add: increment_alt)
  note th = backoff_delays[OF h1 h2 h3 h4 h5, of 200 1000 "Some 30000" 6 "''boom''",
    unfolded append_Nil]
  have cnt: "retryCountRef ?final = 7"
    using th[THEN conjunct2, THEN conjunct1] n by simp
  have del: "map t_delay (timers ?final) =
      [Num 1000, Num 2000, Num 4000, Num 8000, Num 16000, Num 30000, Num 30000]"
    using th[THEN conjunct2, THEN conjunct2, THEN conjunct2, THEN conjunct1] h6 n t0 d
    by simp
  note nxt = th[THEN conjunct2, THEN conjunct2, THEN conjunct2, THEN conjunct2,
    THEN conjunct1, rule_format, OF h7]
  have del8: "map t_delay (timers (step (Error 6 ''boom'') ?final)) =
      [Num 1000, Num 2000, Num 4000, Num 8000, Num 16000, Num 30000, Num 30000, Num 30000]"
    using nxt[THEN conjunct1] h8 cnt d7 del by (simp del: step_Error)
  have cnt8: "retryCountRef (step (Error 6 ''boom'') ?final) = 8"
    using nxt[THEN conjunct2] h8 cnt i8 by (simp del: step_Error)
  show ?thesis by (intro conjI) (rule h1 h2 h3 h4 h5 h6 n cnt del h7 h8 del8 cnt8)+
qed

text \<open>
  C3, as the specification states it: the error callback never throws. With no retry
  interval configured the callback ends in \<^verbatim>\<open>throw err\<close>: on the first attempt of a
  session without a retry policy, the error \<open>boom\<close> is thrown back to the transport.
\<close>

theorem onerror_throws_without_retry_policy:
  "live (mount opts_plain :: (string, nat) hook) 0 \<and>
   retryIntervalMs (c_opts (closure (attempts (mount opts_plain :: (string, nat) hook) ! 0)))
     = None \<and>
   snd (onerror (closure (attempts (mount opts_plain :: (string, nat) hook) ! 0)) 0 ''boom''
          (mount opts_plain :: (string, nat) hook)) = Some ''boom''"
proof -
  have a: "live (mount opts_plain :: (string, nat) hook) 0" by code_simp
  have b: "retryIntervalMs (c_opts (closure (attempts
      (mount opts_plain :: (string, nat) hook) ! 0))) = None" by code_simp
  have c: "snd (onerror (closure (attempts (mount opts_plain :: (string, nat) hook) ! 0)) 0
      ''boom'' (mount opts_plain :: (string, nat) hook)) = Some ''boom''" by code_simp
  show ?thesis by (intro conjI) (rule a b c)+
qed

text \<open>
  C3, amended: on every transport error the callback records the error and calls the
  error observer when there is one, without starting or cancelling an attempt. When the
  observer returns (or there is none), the callback sets the state to CLOSED; then, with
  a retry interval configured, it schedules one timer and returns normally, and with none
  configured it throws the error it received back to the transport. When the observer
  throws, what it throws leaves the callback: the state is not set to CLOSED and no timer
  is scheduled. The transport's error event runs the callback for a live attempt, and the
  attempt is finished exactly when the callback throws.
\<close>

theorem onerror_outcome:
  "snd (onerror cl controller err s) =
     (case call_observer (onErrorRef s) err of
        Some thrown \<Rightarrow> Some thrown
      | None \<Rightarrow> if retryIntervalMs (c_opts cl) = None then Some err else None) \<and>
   error (fst (onerror cl controller err s)) = Some err \<and>
   readyState (fst (onerror cl controller err s)) =
     (if call_observer (onErrorRef s) err = None then CLOSED else readyState s) \<and>
   observed (fst (onerror cl controller err s)) =
     (case onErrorRef s of None \<Rightarrow> observed s | Some f \<Rightarrow> observed s @ [OnError err]) \<and>
   attempts (fst (onerror cl controller err s)) = attempts s \<and>
   length (timers (fst (onerror cl controller err s))) =
     (if snd (onerror cl controller err s) = None then length (timers s) + 1
      else length (timers s)) \<and>
   step (Error k err) s =
     (if live s k then
        (if snd (onerror (closure (attempts s ! k)) k err s) = None
         then fst (onerror (closure (attempts s ! k)) k err s)
         else end_attempt k (fst (onerror (closure (attempts s ! k)) k err s)))
      else s)"
proof -
  have t: "length (timers (fst (onerror cl controller err s))) =
     (if snd (onerror cl controller err s) = None then length (timers s) + 1
      else length (timers s))"
    by (simp add: onerror_retry onerror_thrown split: option.split)
  show ?thesis
    by (intro conjI) (rule onerror_thrown onerror_other onerror_readyState t step_Error)+
qed

text \<open>
  C4 says that the state becomes CLOSED when the page is hidden. The handler only aborts
  the controller: in a session that is open, \<^verbatim>\<open>readyState\<close> is still OPEN after the
  page was hidden, although the attempt is aborted. (\<^verbatim>\<open>close()\<close> aborts and then
  sets CLOSED.)
\<close>

theorem hidden_leaves_readyState_open:
  "visibilityListener (session opts_plain [Open 0 200] :: (string, nat) hook) \<and>
   readyState (session opts_plain [Open 0 200] :: (string, nat) hook) = OPEN \<and>
   aborted (attempts (session opts_plain [Open 0 200, VisibilityChange True]
      :: (string, nat) hook) ! 0) \<and>
   readyState (session opts_plain [Open 0 200, VisibilityChange True]
      :: (string, nat) hook) = OPEN \<and>
   readyState (close (session opts_plain [Open 0 200] :: (string, nat) hook)) = CLOSED"
proof -
  have a: "visibilityListener (session opts_plain [Open 0 200] :: (string, nat) hook)"
    by code_simp
  have b: "readyState (session opts_plain [Open 0 200] :: (string, nat) hook) = OPEN"
    by code_simp
  have c: "aborted (attempts (session opts_plain [Open 0 200, VisibilityChange True]
      :: (string, nat) hook) ! 0)" by code_simp
  have d: "readyState (session opts_plain [Open 0 200, VisibilityChange True]
      :: (string, nat) hook) = OPEN" by code_simp
  have e: "readyState (close (session opts_plain [Open 0 200] :: (string, nat) hook)) = CLOSED"
    by code_simp
  show ?thesis by (intro conjI) (rule a b c d e)+
qed

text \<open>
  C5: in every state that a session reaches, at most one attempt is live and at most one
  controller is not aborted. \<^verbatim>\<open>start()\<close> first aborts the current controller and then
  creates the next attempt. So after \<^verbatim>\<open>start()\<close> twice in a row, from any reachable
  state, there are two more attempts; the second is live, with the request that its
  \<^verbatim>\<open>start\<close> builds, and it is the only live one; the first is aborted and was never
  opened. It stays so whatever happens later, and by the rules of the transport it
  receives no open, message, error or close callback: such an event changes nothing. After
  any later events at most one attempt is live.
\<close>

theorem start_twice_one_attempt:
  "length (active (session opts evs)) \<le> 1 \<and>
   length (outstanding (session opts evs)) \<le> 1 \<and>
   active (start cl1 (session opts evs)) = [length (attempts (session opts evs))] \<and>
   attempts (start cl2 (start cl1 (session opts evs))) =
     attempts (abort_current (start cl1 (session opts evs))) @
       [\<lparr>aborted = False, opened = False, ended = False,
         request = build_request cl2, closure = cl2\<rparr>] \<and>
   length (attempts (start cl2 (start cl1 (session opts evs)))) =
     length (attempts (session opts evs)) + 2 \<and>
   controllerRef (start cl2 (start cl1 (session opts evs))) =
     Some (length (attempts (session opts evs)) + 1) \<and>
   live (start cl2 (start cl1 (session opts evs))) (length (attempts (session opts evs)) + 1) \<and>
   active (start cl2 (start cl1 (session opts evs))) =
     [length (attempts (session opts evs)) + 1] \<and>
   outstanding (start cl2 (start cl1 (session opts evs))) =
     [length (attempts (session opts evs)) + 1] \<and>
   aborted (attempts (abort_current (start cl1 (session opts evs))) !
     length (attempts (session opts evs))) \<and>
   silenced (start cl2 (start cl1 (session opts evs))) (length (attempts (session opts evs))) \<and>
   silenced (run later (start cl2 (start cl1 (session opts evs))))
     (length (attempts (session opts evs))) \<and>
   step (Open (length (attempts (session opts evs))) response)
     (run later (start cl2 (start cl1 (session opts evs)))) =
     run later (start cl2 (start cl1 (session opts evs))) \<and>
   step (Message (length (attempts (session opts evs))) message)
     (run later (start cl2 (start cl1 (session opts evs)))) =
     run later (start cl2 (start cl1 (session opts evs))) \<and>
   step (Error (length (attempts (session opts evs))) err)
     (run later (start cl2 (start cl1 (session opts evs)))) =
     run later (start cl2 (start cl1 (session opts evs))) \<and>
   step (Close (length (attempts (session opts evs))))
     (run later (start cl2 (start cl1 (session opts evs)))) =
     run later (start cl2 (start cl1 (session opts evs))) \<and>
   length (active (run later (start cl2 (start cl1 (session opts evs))))) \<le> 1"
proof -
  let ?before = "session opts evs"
  let ?n = "length (attempts ?before)"
  let ?once = "start cl1 ?before"
  let ?twice = "start cl2 ?once"
  have w: "wf ?before" by (rule wf_session)
  have w1: "wf ?once" using w by (rule wf_start)
  have w2: "wf ?twice" using w1 by (rule wf_start)
  have n1: "length (attempts ?once) = ?n + 1" by simp
  have c1: "length (active ?before) \<le> 1" using active_wf[OF w] by simp
  have c2: "length (outstanding ?before) \<le> 1" using outstanding_wf[OF w] by simp
  have c3: "active ?once = [?n]" using w by (rule active_start)
  have c4: "attempts ?twice = attempts (abort_current ?once) @
      [\<lparr>aborted = False, opened = False, ended = False,
        request = build_request cl2, closure = cl2\<rparr>]" by simp
  have c5: "length (attempts ?twice) = ?n + 2" by simp
  have c6: "controllerRef ?twice = Some (?n + 1)" by simp
  have c7: "live ?twice (?n + 1)" using live_start[of cl2 ?once] by simp
  have c8: "active ?twice = [?n + 1]" using active_start[OF w1, of cl2] by simp
  have c9: "outstanding ?twice = [?n + 1]" using outstanding_start[OF w1, of cl2] by simp
  have c10: "aborted (attempts (abort_current ?once) ! ?n)"
    by (simp add: abort_current_nth)
  have c11: "silenced ?twice ?n"
    by (simp add: silenced_def abort_current_nth nth_append)
  have c12: "silenced (run later ?twice) ?n" using c11 by (rule silenced_run)
  note quiet = silenced_no_callback[OF c12]
  have c17: "length (active (run later ?twice)) \<le> 1"
    using active_wf[OF wf_run[OF w2, of later]] by simp
  show ?thesis
    by (intro conjI)
       (rule c1 c2 c3 c4 c5 c6 c7 c8 c9 c10 c11 c12 quiet(3) quiet(4) quiet(5) quiet(6) c17)+
qed

text \<open>
  C5 at a concrete input: on an open session with one attempt, \<^verbatim>\<open>start()\<close> twice leaves
  the attempt 2 as the only live one, and the attempt 1 is aborted and unopened, also
  after a message for it.
\<close>

theorem start_twice_one_attempt_witness:
  "length (attempts (session opts_plain [Open 0 200] :: (string, nat) hook)) = 1 \<and>
   active
     (start (startMemo (session opts_plain [Open 0 200] :: (string, nat) hook))
       (start (startMemo (session opts_plain [Open 0 200] :: (string, nat) hook))
         (session opts_plain [Open 0 200] :: (string, nat) hook))) = [2] \<and>
   silenced
     (run [Message 1 msg_with_id]
       (start (startMemo (session opts_plain [Open 0 200] :: (string, nat) hook))
         (start (startMemo (session opts_plain [Open 0 200] :: (string, nat) hook))
           (session opts_plain [Open 0 200] :: (string, nat) hook)))) 1"
proof -
  let ?before = "session opts_plain [Open 0 200] :: (string, nat) hook"
  have n: "length (attempts ?before) = 1" by code_simp
  note th = start_twice_one_attempt
    [of opts_plain "[Open 0 200] :: (string, nat) event list" "startMemo ?before"
        "startMemo ?before" "[Message 1 msg_with_id]" 200 msg_with_id "''boom''"]
  have two: "active (start (startMemo ?before) (start (startMemo ?before) ?before)) = [2]"
    using th n by simp
  have dead: "silenced (run [Message 1 msg_with_id]
      (start (startMemo ?before) (start (startMemo ?before) ?before))) 1"
    using th n by simp
  show ?thesis by (intro conjI) (rule n two dead)+
qed

text \<open>
  C6: \<^verbatim>\<open>close()\<close> sets the state to CLOSED and leaves no controller that is not aborted.
  A retry timer that is pending then does nothing when it fires: its function finds the
  controller aborted. Through all later events that do not call \<^verbatim>\<open>start()\<close> (that is,
  any events but \<^verbatim>\<open>reconnect()\<close>, the page becoming visible and a render that changes a
  dependency of \<^verbatim>\<open>start\<close>) the state stays CLOSED, no attempt is created, no timer is
  scheduled and every controller stays aborted.
\<close>

theorem close_cancels_pending_retry:
  assumes "list_all (\<lambda>ev. \<not> connects (startMemo (session opts pre)) ev) evs"
  shows "readyState (close (session opts pre)) = CLOSED \<and>
         outstanding (close (session opts pre)) = [] \<and>
         step (Timeout i) (close (session opts pre)) =
           (if i < length (timers (session opts pre)) \<and> \<not> fired (timers (session opts pre) ! i)
            then (close (session opts pre))
                   \<lparr>timers := (timers (session opts pre))
                      [i := (timers (session opts pre) ! i)\<lparr>fired := True\<rparr>]\<rparr>
            else close (session opts pre)) \<and>
         readyState (run evs (close (session opts pre))) = CLOSED \<and>
         length (attempts (run evs (close (session opts pre)))) =
           length (attempts (session opts pre)) \<and>
         length (timers (run evs (close (session opts pre)))) =
           length (timers (session opts pre)) \<and>
         outstanding (run evs (close (session opts pre))) = []"
proof -
  let ?before = "session opts pre"
  let ?closed = "close ?before"
  have w: "wf ?before" by (rule wf_session)
  have q: "quiet ?closed" using w by (rule quiet_close)
  have m: "startMemo ?closed = startMemo ?before" by (simp add: close_def)
  have t: "timers ?closed = timers ?before" by (simp add: close_def)
  have a: "length (attempts ?closed) = length (attempts ?before)" by (simp add: close_def)
  have c: "readyState ?closed = CLOSED" by (simp add: close_def)
  have all: "\<forall>k < length (attempts ?closed). aborted (attempts ?closed ! k)"
    using wf_aborted_or_last[OF w] by (auto simp: close_def abort_current_nth)
  then have o: "outstanding ?closed = []" by (simp add: outstanding_nil_iff)
  note r = quiet_run[OF q, of evs, unfolded m, OF assms]
  have rc: "readyState (run evs ?closed) = CLOSED" using r c by auto
  have ra: "length (attempts (run evs ?closed)) = length (attempts ?before)" using r a by simp
  have rt: "length (timers (run evs ?closed)) = length (timers ?before)" using r t by simp
  have "\<forall>k < length (attempts (run evs ?closed)). aborted (attempts (run evs ?closed) ! k)"
    using keeps_aborted_run[of ?closed evs] all r by (simp add: keeps_aborted_def)
  then have o': "outstanding (run evs ?closed) = []" by (simp add: outstanding_nil_iff)
  have f: "step (Timeout i) ?closed =
      (if i < length (timers ?before) \<and> \<not> fired (timers ?before ! i)
       then ?closed\<lparr>timers := (timers ?before)[i := (timers ?before ! i)\<lparr>fired := True\<rparr>]\<rparr>
       else ?closed)"
    using quiet_timeout_eq[OF q, of i] by (simp add: t)
  show ?thesis by (intro conjI) (rule c o f rc ra rt o')+
qed

text \<open>
  C6 at a concrete input: after one error with a retry policy the timer 0 is pending, and
  firing it would start a second attempt. After \<^verbatim>\<open>close()\<close> it fires without one, and
  the session is still CLOSED with its single attempt after the events \<open>quiet_events\<close>.
\<close>

theorem close_cancels_pending_retry_witness:
  "list_all
     (\<lambda>ev. \<not> connects
        (startMemo (session opts_retry [Error 0 ''boom''] :: (string, nat) hook)) ev)
     (quiet_events opts_retry) \<and>
   map fired (timers (session opts_retry [Error 0 ''boom''] :: (string, nat) hook)) = [False] \<and>
   length (attempts (step (Timeout 0)
     (session opts_retry [Error 0 ''boom''] :: (string, nat) hook))) = 2 \<and>
   readyState (run (quiet_events opts_retry)
     (close (session opts_retry [Error 0 ''boom''] :: (string, nat) hook))) = CLOSED \<and>
   length (attempts (run (quiet_events opts_retry)
     (close (session opts_retry [Error 0 ''boom''] :: (string, nat) hook)))) = 1"
proof -
  let ?before = "session opts_retry [Error 0 ''boom''] :: (string, nat) hook"
  have h: "list_all (\<lambda>ev. \<not> connects (startMemo ?before) ev) (quiet_events opts_retry)"
    by code_simp
  have t: "map fired (timers ?before) = [False]" by code_simp
  have n: "length (attempts ?before) = 1" by code_simp
  have u: "length (attempts (step (Timeout 0) ?before)) = 2" by code_simp
  note th = close_cancels_pending_retry[OF h, of 0]
  note closed = th[THEN conjunct2, THEN conjunct2, THEN conjunct2, THEN conjunct1]
  note same = th[THEN conjunct2, THEN conjunct2, THEN conjunct2, THEN conjunct2,
    THEN conjunct1, unfolded n]
  show ?thesis by (intro conjI) (rule h t u closed same)+
qed

text \<open>
  C7 says that every \<^verbatim>\<open>start()\<close> sends the current \<^verbatim>\<open>lastEventId\<close>. The memoised
  \<^verbatim>\<open>start\<close> reads the \<^verbatim>\<open>lastEventId\<close> of the render that created it, and
  \<^verbatim>\<open>lastEventId\<close> is not a dependency: after a message with the identifier 42, an
  error and the retry timer, the second request has no \<^verbatim>\<open>Last-Event-ID\<close> header while
  \<^verbatim>\<open>lastEventId\<close> is 42.
\<close>

theorem retry_request_lacks_last_event_id:
  "lastEventId (session opts_retry
      [Open 0 200, Message 0 msg_with_id, Error 0 ''boom'', Timeout 0]
      :: (string, nat) hook) = ''42'' \<and>
   length (attempts (session opts_retry
      [Open 0 200, Message 0 msg_with_id, Error 0 ''boom'', Timeout 0]
      :: (string, nat) hook)) = 2 \<and>
   req_headers (request (attempts (session opts_retry
      [Open 0 200, Message 0 msg_with_id, Error 0 ''boom'', Timeout 0]
      :: (string, nat) hook) ! 1)) ''Last-Event-ID'' = None"
proof -
  have a: "lastEventId (session opts_retry
      [Open 0 200, Message 0 msg_with_id, Error 0 ''boom'', Timeout 0]
      :: (string, nat) hook) = ''42''" by code_simp
  have b: "length (attempts (session opts_retry
      [Open 0 200, Message 0 msg_with_id, Error 0 ''boom'', Timeout 0]
      :: (string, nat) hook)) = 2" by code_simp
  have k: "list_all (keeps_deps opts_retry)
      [Open 0 200, Message 0 msg_with_id, Error 0 ''boom'', Timeout 0 :: (string, nat) event]"
    by simp
  have i: "init opts_retry = None" by (simp add: opts_retry_def opts_plain_def)
  have c: "req_headers (request (attempts (session opts_retry
      [Open 0 200, Message 0 msg_with_id, Error 0 ''boom'', Timeout 0]
      :: (string, nat) hook) ! 1)) ''Last-Event-ID'' = None"
    using last_event_id_never_sent[OF k, of 1] b i by simp
  show ?thesis by (intro conjI) (rule a b c)+
qed

text \<open>
  C8, as the specification states it: without a retry policy a single transport error
  leaves the session CLOSED. The error observer is called before the state is set: when
  it throws, \<^verbatim>\<open>setReadyState(2)\<close> is not reached. In an open session without a retry
  policy whose error observer throws, the state is still OPEN after the error, although
  the transport has finished the attempt.
\<close>

theorem error_observer_throws_state_stays_open:
  "retryIntervalMs opts_plain_throwing = None \<and>
   live (session opts_plain_throwing [Open 0 200] :: (string, nat) hook) 0 \<and>
   readyState (session opts_plain_throwing [Open 0 200] :: (string, nat) hook) = OPEN \<and>
   readyState (session opts_plain_throwing [Open 0 200, Error 0 ''boom'']
      :: (string, nat) hook) = OPEN \<and>
   observed (session opts_plain_throwing [Open 0 200, Error 0 ''boom'']
      :: (string, nat) hook) = [OnOpen 200, OnError ''boom''] \<and>
   ended (attempts (session opts_plain_throwing [Open 0 200, Error 0 ''boom'']
      :: (string, nat) hook) ! 0)"
proof -
  have a: "retryIntervalMs opts_plain_throwing = None"
    by (simp add: opts_plain_throwing_def opts_plain_def)
  have b: "live (session opts_plain_throwing [Open 0 200] :: (string, nat) hook) 0"
    by code_simp
  have c: "readyState (session opts_plain_throwing [Open 0 200] :: (string, nat) hook) = OPEN"
    by code_simp
  have d: "readyState (session opts_plain_throwing [Open 0 200, Error 0 ''boom'']
      :: (string, nat) hook) = OPEN" by code_simp
  have e: "observed (session opts_plain_throwing [Open 0 200, Error 0 ''boom'']
      :: (string, nat) hook) = [OnOpen 200, OnError ''boom'']" by code_simp
  have f: "ended (attempts (session opts_plain_throwing [Open 0 200, Error 0 ''boom'']
      :: (string, nat) hook) ! 0)" by code_simp
  show ?thesis by (intro conjI) (rule a b c d e f)+
qed

text \<open>
  C8, amended: let the transport deliver an error for an attempt whose closure has no
  retry interval. Then the error is recorded, the error observer (when there is one) is
  called with it, no timer is scheduled, the retry count is as before, the callback
  throws, so that the transport finishes the attempt, and no attempt is live. The state
  is CLOSED when the observer returned (or there is none), and as it was before when the
  observer threw. Through all later events that do not call \<^verbatim>\<open>start()\<close> (any events but
  \<^verbatim>\<open>reconnect()\<close>, the page becoming visible and a render that changes a dependency of
  \<^verbatim>\<open>start\<close>) no attempt is created, no timer is scheduled, no attempt is live, and the
  state stays CLOSED when the observer returned; when it threw, the state stays as it was
  or becomes CLOSED.
\<close>

theorem no_retry_error_is_terminal:
  assumes "live (session opts pre) k"
    and "retryIntervalMs (c_opts (closure (attempts (session opts pre) ! k))) = None"
    and "list_all (\<lambda>ev. \<not> connects (startMemo (session opts pre)) ev) evs"
  shows "error (session opts (pre @ [Error k err])) = Some err \<and>
         observed (session opts (pre @ [Error k err])) =
           (case onErrorRef (session opts pre) of
              None \<Rightarrow> observed (session opts pre)
            | Some f \<Rightarrow> observed (session opts pre) @ [OnError err]) \<and>
         readyState (session opts (pre @ [Error k err])) =
           (if call_observer (onErrorRef (session opts pre)) err = None then CLOSED
            else readyState (session opts pre)) \<and>
         timers (session opts (pre @ [Error k err])) = timers (session opts pre) \<and>
         retryCountRef (session opts (pre @ [Error k err])) = retryCountRef (session opts pre) \<and>
         snd (onerror (closure (attempts (session opts pre) ! k)) k err (session opts pre)) =
           (case call_observer (onErrorRef (session opts pre)) err of
              None \<Rightarrow> Some err | Some thrown \<Rightarrow> Some thrown) \<and>
         ended (attempts (session opts (pre @ [Error k err])) ! k) \<and>
         active (session opts (pre @ [Error k err])) = [] \<and>
         (readyState (session opts (pre @ Error k err # evs)) = CLOSED \<or>
          readyState (session opts (pre @ Error k err # evs)) =
            readyState (session opts (pre @ [Error k err]))) \<and>
         length (attempts (session opts (pre @ Error k err # evs))) =
           length (attempts (session opts pre)) \<and>
         length (timers (session opts (pre @ Error k err # evs))) =
           length (timers (session opts pre)) \<and>
         active (session opts (pre @ Error k err # evs)) = []"
proof -
  let ?before = "session opts pre"
  let ?cl = "closure (attempts ?before ! k)"
  let ?failed = "session opts (pre @ [Error k err])"
  let ?later = "session opts (pre @ Error k err # evs)"
  have thrown: "snd (onerror ?cl k err ?before) \<noteq> None"
    using assms(2) by (simp add: onerror_thrown split: option.split)
  have f: "?failed = end_attempt k (fst (onerror ?cl k err ?before))"
    using assms(1) thrown by (auto simp: session_append)
  have f': "?failed = step (Error k err) ?before" by (simp add: session_append del: step_Error)
  have g: "?later = run evs ?failed" by (simp add: session_def run_append del: step_Error)
  have w: "wf ?before" by (rule wf_session)
  have q: "quiet ?failed" unfolding f' using w assms(1,2) by (rule quiet_terminal_error)
  have kl: "k < length (attempts ?before)" using assms(1) by (simp add: live_def)
  have c1: "error ?failed = Some err" unfolding f by simp
  have c2: "observed ?failed =
      (case onErrorRef ?before of None \<Rightarrow> observed ?before
       | Some f \<Rightarrow> observed ?before @ [OnError err])" unfolding f by simp
  have c3: "readyState ?failed =
      (if call_observer (onErrorRef ?before) err = None then CLOSED else readyState ?before)"
    unfolding f by (simp add: onerror_readyState)
  have c4: "timers ?failed = timers ?before" unfolding f using assms(2)
    by (simp add: onerror_retry)
  have c5: "retryCountRef ?failed = retryCountRef ?before" unfolding f using assms(2)
    by (simp add: onerror_retry)
  have c6: "snd (onerror ?cl k err ?before) =
      (case call_observer (onErrorRef ?before) err of
         None \<Rightarrow> Some err | Some thrown \<Rightarrow> Some thrown)"
    using assms(2) by (simp add: onerror_thrown split: option.split)
  have c7: "ended (attempts ?failed ! k)" unfolding f using kl by (simp add: end_attempt_nth)
  have c8: "active ?failed = []" using q by (rule quiet_active)
  have m: "startMemo ?failed = startMemo ?before" unfolding f by simp
  have a: "length (attempts ?failed) = length (attempts ?before)" unfolding f by simp
  note r = quiet_run[OF q, of evs, unfolded m, OF assms(3), folded g]
  have c9: "readyState ?later = CLOSED \<or> readyState ?later = readyState ?failed"
    using r by auto
  have c10: "length (attempts ?later) = length (attempts ?before)" using r a by simp
  have c11: "length (timers ?later) = length (timers ?before)" using r c4 by simp
  have c12: "active ?later = []" using r quiet_active by blast
  show ?thesis by (intro conjI) (rule c1 c2 c3 c4 c5 c6 c7 c8 c9 c10 c11 c12)+
qed

text \<open>
  C8 at a concrete input: a session without a retry policy is open, the transport reports
  an error and the error observer returns; the session is CLOSED with its single attempt
  and no timer, also after the events \<open>quiet_events\<close>.
\<close>

theorem no_retry_error_is_terminal_witness:
  "live (session opts_plain [Open 0 200] :: (string, nat) hook) 0 \<and>
   retryIntervalMs (c_opts (closure (attempts
     (session opts_plain [Open 0 200] :: (string, nat) hook) ! 0))) = None \<and>
   list_all
     (\<lambda>ev. \<not> connects (startMemo (session opts_plain [Open 0 200] :: (string, nat) hook)) ev)
     (quiet_events opts_plain) \<and>
   call_observer (onErrorRef (session opts_plain [Open 0 200] :: (string, nat) hook)) ''boom''
     = None \<and>
   observed (session opts_plain ([Open 0 200] @ [Error 0 ''boom'']) :: (string, nat) hook) =
     [OnOpen 200, OnError ''boom''] \<and>
   readyState (session opts_plain ([Open 0 200] @ [Error 0 ''boom''])
     :: (string, nat) hook) = CLOSED \<and>
   readyState (session opts_plain ([Open 0 200] @ Error 0 ''boom'' # quiet_events opts_plain)
     :: (string, nat) hook) = CLOSED \<and>
   length (attempts (session opts_plain
     ([Open 0 200] @ Error 0 ''boom'' # quiet_events opts_plain) :: (string, nat) hook)) = 1 \<and>
   length (timers (session opts_plain
     ([Open 0 200] @ Error 0 ''boom'' # quiet_events opts_plain) :: (string, nat) hook)) = 0"
proof -
  let ?before = "session opts_plain [Open 0 200] :: (string, nat) hook"
  have h1: "live ?before 0" by code_simp
  have h2: "retryIntervalMs (c_opts (closure (attempts ?before ! 0))) = None" by code_simp
  have h3: "list_all (\<lambda>ev. \<not> connects (startMemo ?before) ev) (quiet_events opts_plain)"
    by code_simp
  have h4: "call_observer (onErrorRef ?before) ''boom'' = None" by code_simp
  have r: "onErrorRef ?before = Some (\<lambda>err. None)"
    by (simp add: session_def mount_def opts_plain_def live_def abort_current_def
          start_def Let_def)
  have ob: "observed ?before = [OnOpen 200]" by code_simp
  have n: "length (attempts ?before) = 1" by code_simp
  have t: "length (timers ?before) = 0" by code_simp
  note th = no_retry_error_is_terminal[OF h1 h2 h3, of "''boom''"]
  have seen: "observed (session opts_plain ([Open 0 200] @ [Error 0 ''boom''])
      :: (string, nat) hook) = [OnOpen 200, OnError ''boom'']"
    using th[THEN conjunct2, THEN conjunct1] r ob by simp
  have failed: "readyState (session opts_plain ([Open 0 200] @ [Error 0 ''boom''])
      :: (string, nat) hook) = CLOSED"
    using th[THEN conjunct2, THEN conjunct2, THEN conjunct1] h4 by simp
  have closed: "readyState (session opts_plain
      ([Open 0 200] @ Error 0 ''boom'' # quiet_events opts_plain) :: (string, nat) hook) = CLOSED"
    using th[THEN conjunct2, THEN conjunct2, THEN conjunct2, THEN conjunct2, THEN conjunct2,
      THEN conjunct2, THEN conjunct2, THEN conjunct2, THEN conjunct1] failed
    by auto
  note same = th[THEN conjunct2, THEN conjunct2, THEN conjunct2, THEN conjunct2,
    THEN conjunct2, THEN conjunct2, THEN conjunct2, THEN conjunct2, THEN conjunct2,
    THEN conjunct1, unfolded n]
  note none = th[THEN conjunct2, THEN conjunct2, THEN conjunct2, THEN conjunct2,
    THEN conjunct2, THEN conjunct2, THEN conjunct2, THEN conjunct2, THEN conjunct2,
    THEN conjunct2, THEN conjunct1, unfolded t]
  show ?thesis by (intro conjI) (rule h1 h2 h3 h4 seen failed closed same none)+
qed

text \<open>
  C9: the open callback sets the state to OPEN, sets the retry count to 0 and calls the
  open observer, when there is one, with the response; the transport's open event runs it
  for an attempt that is neither aborted nor finished. No other event lowers the retry
  count: an error, \<^verbatim>\<open>close()\<close>, \<^verbatim>\<open>reconnect()\<close>, a visibility change, a timer, a
  message, a close of the stream, a render and the unmount all leave it as it is or raise
  it (only an error raises it).
\<close>

theorem open_resets_retry_count:
  "readyState (fst (onopen response s)) = OPEN \<and>
   retryCountRef (fst (onopen response s)) = 0 \<and>
   observed (fst (onopen response s)) =
     (case onOpenRef s of None \<Rightarrow> observed s | Some f \<Rightarrow> observed s @ [OnOpen response]) \<and>
   snd (onopen response s) = call_observer (onOpenRef s) response \<and>
   step (Open k response) s =
     (if live s k then mark_opened k (fst (onopen response s)) else s) \<and>
   retryCountRef (step (Open k response) s) = (if live s k then 0 else retryCountRef s) \<and>
   readyState (step (Open k response) s) = (if live s k then OPEN else readyState s) \<and>
   (\<not> delivers_open ev s \<longrightarrow> retryCountRef s \<le> retryCountRef (step ev s))"
proof -
  have kept: "\<not> delivers_open ev s \<longrightarrow> retryCountRef s \<le> retryCountRef (step ev s)"
    unfolding retryCountRef_step using increment_ge[of "retryCountRef s"]
    by (cases ev) simp_all
  have a: "readyState (fst (onopen response s)) = OPEN" by simp
  have b: "retryCountRef (fst (onopen response s)) = 0" by simp
  have c: "observed (fst (onopen response s)) =
     (case onOpenRef s of None \<Rightarrow> observed s | Some f \<Rightarrow> observed s @ [OnOpen response])"
    by simp
  have d: "snd (onopen response s) = call_observer (onOpenRef s) response" by simp
  have e: "step (Open k response) s =
     (if live s k then mark_opened k (fst (onopen response s)) else s)" by simp
  have f: "retryCountRef (step (Open k response) s) = (if live s k then 0 else retryCountRef s)"
    by simp
  have g: "readyState (step (Open k response) s) = (if live s k then OPEN else readyState s)"
    by simp
  show ?thesis by (intro conjI) (rule a b c d e f g kept)+
qed

text \<open>
  C9 at a concrete input: after one error with a retry policy the count is 1, and
  \<^verbatim>\<open>reconnect()\<close> leaves it at 1; the open callback of the new attempt sets it to 0.
\<close>

theorem open_resets_retry_count_witness:
  "\<not> delivers_open CallReconnect (session opts_retry [Error 0 ''boom''] :: (string, nat) hook) \<and>
   retryCountRef (session opts_retry [Error 0 ''boom''] :: (string, nat) hook) = 1 \<and>
   1 \<le> retryCountRef
     (step CallReconnect (session opts_retry [Error 0 ''boom''] :: (string, nat) hook)) \<and>
   live (step CallReconnect (session opts_retry [Error 0 ''boom''] :: (string, nat) hook)) 1 \<and>
   retryCountRef (step (Open 1 200)
     (step CallReconnect (session opts_retry [Error 0 ''boom''] :: (string, nat) hook))) = 0"
proof -
  let ?failed = "session opts_retry [Error 0 ''boom''] :: (string, nat) hook"
  have h: "\<not> delivers_open CallReconnect ?failed" by simp
  have c: "retryCountRef ?failed = 1" by code_simp
  have l: "live (step CallReconnect ?failed) 1" by code_simp
  note th0 = open_resets_retry_count[of 200 ?failed 0 CallReconnect]
  note kept = th0[THEN conjunct2, THEN conjunct2, THEN conjunct2, THEN conjunct2,
     THEN conjunct2, THEN conjunct2, THEN conjunct2, rule_format, OF h, unfolded c]
  note th = open_resets_retry_count[of 200 "step CallReconnect ?failed" 1 CallReconnect]
  have reset: "retryCountRef (step (Open 1 200) (step CallReconnect ?failed)) = 0"
    using th[THEN conjunct2, THEN conjunct2, THEN conjunct2, THEN conjunct2, THEN conjunct2,
      THEN conjunct1] l
    by simp
  show ?thesis by (intro conjI) (rule h c kept l reset)+
qed

text \<open>
  C10: once an error is recorded, \<^verbatim>\<open>error\<close> is never cleared. After any events it still
  holds the recorded error or the error of a later error event; one event changes it only
  when it is an error that the transport delivers, and then to that error. An open,
  \<^verbatim>\<open>close()\<close>, \<^verbatim>\<open>reconnect()\<close> and every other event leave it as it is.
\<close>

theorem lastError_never_cleared:
  assumes "error s = Some e"
  shows "(error (run evs s) = Some e \<or>
          (\<exists>k e'. Error k e' \<in> set evs \<and> error (run evs s) = Some e')) \<and>
         error (step ev s) =
           (case ev of Error k e' \<Rightarrow> if live s k then Some e' else Some e | _ \<Rightarrow> Some e)"
proof -
  have "error (run evs s) = Some e \<or>
        (\<exists>k e'. Error k e' \<in> set evs \<and> error (run evs s) = Some e')"
    using assms error_run_kept[of s e evs] by simp
  moreover have "error (step ev s) =
      (case ev of Error k e' \<Rightarrow> if live s k then Some e' else Some e | _ \<Rightarrow> Some e)"
    unfolding error_step using assms by (cases ev) simp_all
  ultimately show ?thesis by simp
qed

text \<open>
  C10 at a concrete input: the error of the first attempt is still there after the retry
  timer, a successful open of the second attempt, \<^verbatim>\<open>close()\<close> and \<^verbatim>\<open>reconnect()\<close>.
\<close>

theorem lastError_never_cleared_witness:
  "error (session opts_retry [Error 0 ''boom''] :: (string, nat) hook) = Some ''boom'' \<and>
   readyState (run [Timeout 0, Open 1 200]
     (session opts_retry [Error 0 ''boom''] :: (string, nat) hook)) = OPEN \<and>
   error (run [Timeout 0, Open 1 200, CallClose, CallReconnect]
     (session opts_retry [Error 0 ''boom''] :: (string, nat) hook)) = Some ''boom'' \<and>
   error (step CallClose (session opts_retry [Error 0 ''boom''] :: (string, nat) hook))
     = Some ''boom''"
proof -
  let ?failed = "session opts_retry [Error 0 ''boom''] :: (string, nat) hook"
  have h: "error ?failed = Some ''boom''" by code_simp
  have opened: "readyState (run [Timeout 0, Open 1 200] ?failed) = OPEN" by code_simp
  note th = lastError_never_cleared
    [OF h, of "[Timeout 0, Open 1 200, CallClose, CallReconnect]" CallClose]
  have kept: "error (run [Timeout 0, Open 1 200, CallClose, CallReconnect] ?failed)
      = Some ''boom''"
    using th[THEN conjunct1] by simp
  have one: "error (step CallClose ?failed) = Some ''boom''"
    using th[THEN conjunct2] by simp
  show ?thesis by (intro conjI) (rule h opened kept one)+
qed

end
